theory Spec2Isabelle
  imports Main "HOL-Library.Multiset"
begin

section \<open>The web scraper with a worker pool\<close>

text \<open>
  A shallow embedding of \<^verbatim>\<open>web-scrapper-with-worker-pool/main.go\<close>: the record
  \<^verbatim>\<open>ScrapeResult\<close>, the function \<^verbatim>\<open>scrapeURL\<close>, and the goroutines of \<^verbatim>\<open>main\<close>
  (the URL feeder, the workers, the result collector, the coordinator that closes the
  result channel, and \<^verbatim>\<open>main\<close> itself) as an interleaving semantics over the two unbuffered
  channels, the \<^verbatim>\<open>done\<close> channel and the \<^verbatim>\<open>sync.WaitGroup\<close>.
\<close>

subsection \<open>Data model\<close>

text \<open>
  A Go \<^verbatim>\<open>error\<close> value is modelled by its message; \<^verbatim>\<open>nil\<close> is \<open>None\<close>. Clock readings
  and durations are nanosecond counts. Go's \<^verbatim>\<open>int\<close> and \<^verbatim>\<open>int64\<close> are modelled by HOL's
  \<open>int\<close>: the program does no arithmetic on the status code or the content length. The
  two counters of the program, the loop counter of \<^verbatim>\<open>main\<close> and the counter of the
  \<^verbatim>\<open>WaitGroup\<close>, are modelled by \<open>int\<close> as well; they stay in the ranges of Go's
  integers in every run with \<^verbatim>\<open>numWorkers\<close> below \<open>2\<^sup>3\<^sup>1\<close> (see \<open>counters_in_range\<close>
  below), and what is said about a run coming to its end is said for these worker
  counts.
\<close>

type_synonym error = string

type_synonym time = int

type_synonym duration = int

record ScrapeResult =
  URL :: string
  StatusCode :: int
  ContentLength :: int
  Duration :: duration
  Error :: "error option"

text \<open>The two fields of \<^verbatim>\<open>http.Response\<close> that \<^verbatim>\<open>scrapeURL\<close> reads.\<close>

datatype Response = Response (resp_StatusCode: int) (resp_ContentLength: int)

subsection \<open>\<^verbatim>\<open>scrapeURL\<close>\<close>

text \<open>
  \<^verbatim>\<open>time.Since(start)\<close> is \<^verbatim>\<open>time.Now().Sub(start)\<close>; \<^verbatim>\<open>Sub\<close> saturates at the least
  and the greatest \<^verbatim>\<open>Duration\<close> (a 64-bit count of nanoseconds).
\<close>

definition maxDuration :: duration where
  "maxDuration = 2 ^ 63 - 1"

definition minDuration :: duration where
  "minDuration = - (2 ^ 63)"

definition time_Since :: "time \<Rightarrow> time \<Rightarrow> duration" where
  "time_Since start now =
     (let d = now - start
      in if maxDuration < d then maxDuration
         else if d < minDuration then minDuration
         else d)"

text \<open>
  \<^verbatim>\<open>scrapeURL\<close> reads the clock, calls \<^verbatim>\<open>http.Get\<close> and reads the clock again. The three
  answers of the outside world are arguments of the model: \<open>start\<close> is what
  \<^verbatim>\<open>time.Now()\<close> returns, \<open>got\<close> is what \<^verbatim>\<open>http.Get(url)\<close> returns (\<open>Inl err\<close> when
  \<^verbatim>\<open>err != nil\<close>, \<open>Inr resp\<close> otherwise: the code reads \<^verbatim>\<open>resp\<close> only when \<^verbatim>\<open>err\<close> is
  \<^verbatim>\<open>nil\<close>), and \<open>now\<close> is the clock when \<^verbatim>\<open>time.Since(start)\<close> is evaluated. The fields
  that the error branch does not mention take Go's zero values.
\<close>

definition scrapeURL :: "string \<Rightarrow> time \<Rightarrow> error + Response \<Rightarrow> time \<Rightarrow> ScrapeResult" where
  "scrapeURL url start got now =
     (case got of
        Inl err \<Rightarrow>
          \<lparr>URL = url, StatusCode = 0, ContentLength = 0,
           Duration = time_Since start now, Error = Some err\<rparr>
      | Inr resp \<Rightarrow>
          \<lparr>URL = url, StatusCode = resp_StatusCode resp,
           ContentLength = resp_ContentLength resp,
           Duration = time_Since start now, Error = None\<rparr>)"

subsection \<open>The goroutines of \<^verbatim>\<open>main\<close>\<close>

text \<open>
  Every goroutine is a small automaton over its program points; the points are the
  places where the goroutine synchronises with another one (a channel operation, a
  \<^verbatim>\<open>WaitGroup\<close> operation, a \<^verbatim>\<open>go\<close> statement) or calls \<^verbatim>\<open>scrapeURL\<close>. Printing is
  not modelled.

  \<^item> The feeder (the first anonymous function) is idle until \<^verbatim>\<open>main\<close> starts it; then it
    holds the URLs it has not sent yet (\<open>FSend\<close>); after the last send it closes
    \<^verbatim>\<open>urlChannel\<close> and is done.
  \<^item> A worker waits at \<^verbatim>\<open>for url := range urlChannel\<close> (\<open>WRecv\<close>), holds a URL it is
    about to scrape (\<open>WWork\<close>), or is blocked in \<^verbatim>\<open>resultChannel <- result\<close> (\<open>WSend\<close>);
    when the loop ends its deferred \<^verbatim>\<open>wg.Done()\<close> is pending (\<open>WDefer\<close>), and after it
    the worker has returned (\<open>WDone\<close>).
  \<^item> The collector receives from \<^verbatim>\<open>resultChannel\<close> with the results it has appended so far
    (\<open>CRecv\<close>), is blocked in \<^verbatim>\<open>done <- results\<close> (\<open>CSend\<close>), or has returned.
  \<^item> The coordinator (the second anonymous function) is in \<^verbatim>\<open>wg.Wait()\<close> (\<open>KWait\<close>), is
    about to close \<^verbatim>\<open>resultChannel\<close> (\<open>KClose\<close>), or is done.
  \<^item> \<^verbatim>\<open>main\<close> starts the feeder and the collector, runs the loop
    \<^verbatim>\<open>for i := 1; i <= numWorkers; i++\<close> (\<open>MLoop i\<close> is the test, \<open>MGoWorker i\<close> the point
    between \<^verbatim>\<open>wg.Add(1)\<close> and \<^verbatim>\<open>go worker(i, ...)\<close>), starts the coordinator, blocks in
    \<^verbatim>\<open><-done\<close> (\<open>MWait\<close>) and finally has the results (\<open>MGot\<close>).

  The worker started with id \<open>i\<close> is the element \<open>i - 1\<close> of the list \<open>workers\<close>. The
  constant \<^verbatim>\<open>numWorkers\<close> (4 in the source) and the slice \<^verbatim>\<open>urls\<close> are parameters.
\<close>

datatype feeder_pc = FIdle | FSend "string list" | FDone

datatype worker_pc = WRecv | WWork string | WSend ScrapeResult | WDefer | WDone

datatype collector_pc = CIdle | CRecv "ScrapeResult list" | CSend "ScrapeResult list" | CDone

datatype coordinator_pc = KIdle | KWait | KClose | KDone

datatype main_pc =
  MGoFeeder | MGoCollector | MLoop int | MGoWorker int | MGoCoordinator | MWait
| MGot "ScrapeResult list"

record pool =
  mainG :: main_pc
  feeder :: feeder_pc
  workers :: "worker_pc list"
  collector :: collector_pc
  coordinator :: coordinator_pc
  wg :: int
  urlChannel_closed :: bool
  resultChannel_closed :: bool
  panicked :: bool

definition initial :: pool where
  "initial =
     \<lparr>mainG = MGoFeeder, feeder = FIdle, workers = [], collector = CIdle,
      coordinator = KIdle, wg = 0, urlChannel_closed = False,
      resultChannel_closed = False, panicked = False\<rparr>"

text \<open>
  An action is one atomic move of the program, chosen by the Go scheduler. A send and
  the matching receive on an unbuffered channel are one action of the two goroutines
  (\<open>Handoff i\<close>: the feeder hands the next URL to worker \<open>i\<close>; \<open>Publish i\<close>: worker \<open>i\<close>
  hands its result to the collector; \<open>Deliver\<close>: the collector hands the slice to
  \<^verbatim>\<open>main\<close>). \<open>Scrape i start got now\<close> is the call of \<^verbatim>\<open>scrapeURL\<close> by worker \<open>i\<close>, with
  the answers of the clock and of the network.
\<close>

datatype action =
  GoFeeder | GoCollector | LoopTest | GoWorker | GoCoordinator
| Handoff nat | CloseURLs
| Scrape nat time "error + Response" time | Publish nat | LoopExit nat | Done nat
| WgWait | CloseResults
| CollectorExit | Deliver

text \<open>
  A send on a closed channel, the close of a closed channel and a negative
  \<^verbatim>\<open>WaitGroup\<close> counter panic; a panic ends the program.
\<close>

definition panic :: "pool \<Rightarrow> pool" where
  "panic s = s\<lparr>panicked := True\<rparr>"

definition wg_Add :: "int \<Rightarrow> pool \<Rightarrow> pool" where
  "wg_Add delta s = (if wg s + delta < 0 then panic s else s\<lparr>wg := wg s + delta\<rparr>)"

definition worker_at :: "pool \<Rightarrow> nat \<Rightarrow> worker_pc option" where
  "worker_at s i = (if i < length (workers s) then Some (workers s ! i) else None)"

definition set_worker :: "nat \<Rightarrow> worker_pc \<Rightarrow> pool \<Rightarrow> pool" where
  "set_worker i w s = s\<lparr>workers := (workers s)[i := w]\<rparr>"

fun move :: "int \<Rightarrow> string list \<Rightarrow> action \<Rightarrow> pool \<Rightarrow> pool option" where
  \<comment> \<open>\<^verbatim>\<open>main\<close>: \<^verbatim>\<open>go func() { ... }()\<close>, the feeder\<close>
  "move numWorkers urls GoFeeder s =
     (if mainG s = MGoFeeder then Some (s\<lparr>mainG := MGoCollector, feeder := FSend urls\<rparr>)
      else None)"
  \<comment> \<open>\<^verbatim>\<open>main\<close>: \<^verbatim>\<open>go resultCollector(resultChannel, &wg, done)\<close>; then \<^verbatim>\<open>i := 1\<close>\<close>
| "move numWorkers urls GoCollector s =
     (if mainG s = MGoCollector then Some (s\<lparr>mainG := MLoop 1, collector := CRecv []\<rparr>)
      else None)"
  \<comment> \<open>\<^verbatim>\<open>main\<close>: the test \<^verbatim>\<open>i <= numWorkers\<close>, and \<^verbatim>\<open>wg.Add(1)\<close> when it holds\<close>
| "move numWorkers urls LoopTest s =
     (case mainG s of
        MLoop i \<Rightarrow>
          if i \<le> numWorkers then Some (wg_Add 1 (s\<lparr>mainG := MGoWorker i\<rparr>))
          else Some (s\<lparr>mainG := MGoCoordinator\<rparr>)
      | _ \<Rightarrow> None)"
  \<comment> \<open>\<^verbatim>\<open>main\<close>: \<^verbatim>\<open>go worker(i, urlChannel, resultChannel, &wg)\<close>; then \<^verbatim>\<open>i++\<close>\<close>
| "move numWorkers urls GoWorker s =
     (case mainG s of
        MGoWorker i \<Rightarrow> Some (s\<lparr>mainG := MLoop (i + 1), workers := workers s @ [WRecv]\<rparr>)
      | _ \<Rightarrow> None)"
  \<comment> \<open>\<^verbatim>\<open>main\<close>: \<^verbatim>\<open>go func() { wg.Wait(); close(resultChannel) }()\<close>, the coordinator\<close>
| "move numWorkers urls GoCoordinator s =
     (if mainG s = MGoCoordinator then Some (s\<lparr>mainG := MWait, coordinator := KWait\<rparr>)
      else None)"
  \<comment> \<open>feeder: \<^verbatim>\<open>urlChannel <- url\<close>, met by \<^verbatim>\<open>url := range urlChannel\<close> of worker \<open>i\<close>\<close>
| "move numWorkers urls (Handoff i) s =
     (case feeder s of
        FSend (url # rest) \<Rightarrow>
          if urlChannel_closed s then Some (panic s)
          else if worker_at s i = Some WRecv
          then Some (set_worker i (WWork url) (s\<lparr>feeder := FSend rest\<rparr>))
          else None
      | _ \<Rightarrow> None)"
  \<comment> \<open>feeder: \<^verbatim>\<open>close(urlChannel)\<close>, after the loop over \<^verbatim>\<open>urls\<close>\<close>
| "move numWorkers urls CloseURLs s =
     (if feeder s = FSend [] then
        if urlChannel_closed s then Some (panic s)
        else Some (s\<lparr>feeder := FDone, urlChannel_closed := True\<rparr>)
      else None)"
  \<comment> \<open>worker \<open>i\<close>: \<^verbatim>\<open>result := scrapeURL(url)\<close>\<close>
| "move numWorkers urls (Scrape i t0 got t1) s =
     (case worker_at s i of
        Some (WWork url) \<Rightarrow> Some (set_worker i (WSend (scrapeURL url t0 got t1)) s)
      | _ \<Rightarrow> None)"
  \<comment> \<open>worker \<open>i\<close>: \<^verbatim>\<open>resultChannel <- result\<close>, met by \<^verbatim>\<open>result := range resultChannel\<close>
      and \<^verbatim>\<open>results = append(results, result)\<close> of the collector\<close>
| "move numWorkers urls (Publish i) s =
     (case worker_at s i of
        Some (WSend result) \<Rightarrow>
          if resultChannel_closed s then Some (panic s)
          else (case collector s of
                  CRecv results \<Rightarrow>
                    Some (set_worker i WRecv (s\<lparr>collector := CRecv (results @ [result])\<rparr>))
                | _ \<Rightarrow> None)
      | _ \<Rightarrow> None)"
  \<comment> \<open>worker \<open>i\<close>: the loop over \<^verbatim>\<open>urlChannel\<close> ends, the channel being closed\<close>
| "move numWorkers urls (LoopExit i) s =
     (if worker_at s i = Some WRecv \<and> urlChannel_closed s then Some (set_worker i WDefer s)
      else None)"
  \<comment> \<open>worker \<open>i\<close>: the deferred \<^verbatim>\<open>wg.Done()\<close>, and the return\<close>
| "move numWorkers urls (Done i) s =
     (if worker_at s i = Some WDefer then Some (wg_Add (- 1) (set_worker i WDone s))
      else None)"
  \<comment> \<open>coordinator: \<^verbatim>\<open>wg.Wait()\<close> returns, the counter being zero\<close>
| "move numWorkers urls WgWait s =
     (if coordinator s = KWait \<and> wg s = 0 then Some (s\<lparr>coordinator := KClose\<rparr>) else None)"
  \<comment> \<open>coordinator: \<^verbatim>\<open>close(resultChannel)\<close>\<close>
| "move numWorkers urls CloseResults s =
     (if coordinator s = KClose then
        if resultChannel_closed s then Some (panic s)
        else Some (s\<lparr>coordinator := KDone, resultChannel_closed := True\<rparr>)
      else None)"
  \<comment> \<open>collector: the loop over \<^verbatim>\<open>resultChannel\<close> ends, the channel being closed\<close>
| "move numWorkers urls CollectorExit s =
     (case collector s of
        CRecv results \<Rightarrow>
          if resultChannel_closed s then Some (s\<lparr>collector := CSend results\<rparr>) else None
      | _ \<Rightarrow> None)"
  \<comment> \<open>collector: \<^verbatim>\<open>done <- results\<close>, met by \<^verbatim>\<open>results := <-done\<close> of \<^verbatim>\<open>main\<close>\<close>
| "move numWorkers urls Deliver s =
     (case collector s of
        CSend results \<Rightarrow>
          if mainG s = MWait then Some (s\<lparr>collector := CDone, mainG := MGot results\<rparr>) else None
      | _ \<Rightarrow> None)"

text \<open>
  \<open>step\<close> is \<open>None\<close> when the action is not enabled: the goroutine is not at that
  point, or it is blocked.
\<close>

definition step :: "int \<Rightarrow> string list \<Rightarrow> action \<Rightarrow> pool \<Rightarrow> pool option" where
  "step numWorkers urls a s = (if panicked s then None else move numWorkers urls a s)"

fun run_from :: "int \<Rightarrow> string list \<Rightarrow> pool \<Rightarrow> action list \<Rightarrow> pool option" where
  "run_from numWorkers urls s [] = Some s"
| "run_from numWorkers urls s (a # sched) =
     (case step numWorkers urls a s of
        None \<Rightarrow> None
      | Some s' \<Rightarrow> run_from numWorkers urls s' sched)"

definition run :: "int \<Rightarrow> string list \<Rightarrow> action list \<Rightarrow> pool option" where
  "run numWorkers urls sched = run_from numWorkers urls initial sched"

subsection \<open>What a run shows\<close>

text \<open>
  The observable events of a run: \<open>Task i url\<close>, worker \<open>i\<close> has received \<open>url\<close> from
  \<^verbatim>\<open>urlChannel\<close>; \<open>Result i r\<close>, the collector has received \<open>r\<close> from worker \<open>i\<close>.
\<close>

datatype event = Task nat string | Result nat ScrapeResult

fun observe :: "pool \<Rightarrow> action \<Rightarrow> event list" where
  "observe s (Handoff i) =
     (case feeder s of
        FSend (url # rest) \<Rightarrow> if urlChannel_closed s then [] else [Task i url]
      | _ \<Rightarrow> [])"
| "observe s (Publish i) =
     (case worker_at s i of
        Some (WSend result) \<Rightarrow> if resultChannel_closed s then [] else [Result i result]
      | _ \<Rightarrow> [])"
| "observe s _ = []"

fun events_from :: "int \<Rightarrow> string list \<Rightarrow> pool \<Rightarrow> action list \<Rightarrow> event list" where
  "events_from numWorkers urls s [] = []"
| "events_from numWorkers urls s (a # sched) =
     (case step numWorkers urls a s of
        None \<Rightarrow> []
      | Some s' \<Rightarrow> observe s a @ events_from numWorkers urls s' sched)"

definition events :: "int \<Rightarrow> string list \<Rightarrow> action list \<Rightarrow> event list" where
  "events numWorkers urls sched = events_from numWorkers urls initial sched"

fun tasks_to :: "nat \<Rightarrow> event list \<Rightarrow> string list" where
  "tasks_to i [] = []"
| "tasks_to i (Task j url # evs) = (if i = j then url # tasks_to i evs else tasks_to i evs)"
| "tasks_to i (Result j r # evs) = tasks_to i evs"

fun results_by :: "nat \<Rightarrow> event list \<Rightarrow> ScrapeResult list" where
  "results_by i [] = []"
| "results_by i (Task j url # evs) = results_by i evs"
| "results_by i (Result j r # evs) = (if i = j then r # results_by i evs else results_by i evs)"

fun emitted :: "event list \<Rightarrow> string list" where
  "emitted [] = []"
| "emitted (Task j url # evs) = url # emitted evs"
| "emitted (Result j r # evs) = emitted evs"

fun arrived :: "event list \<Rightarrow> ScrapeResult list" where
  "arrived [] = []"
| "arrived (Task j url # evs) = arrived evs"
| "arrived (Result j r # evs) = r # arrived evs"

fun worker_of :: "event \<Rightarrow> nat" where
  "worker_of (Task i url) = i"
| "worker_of (Result i r) = i"

text \<open>The outcomes of the calls of \<^verbatim>\<open>http.Get\<close> that a schedule contains.\<close>

fun fetches :: "action list \<Rightarrow> (error + Response) list" where
  "fetches [] = []"
| "fetches (Scrape i t0 got t1 # sched) = got # fetches sched"
| "fetches (a # sched) = fetches sched"

subsection \<open>Where the tasks and the results are\<close>

fun stage :: "main_pc \<Rightarrow> nat" where
  "stage MGoFeeder = 0"
| "stage MGoCollector = 1"
| "stage (MLoop i) = 2"
| "stage (MGoWorker i) = 3"
| "stage MGoCoordinator = 4"
| "stage MWait = 5"
| "stage (MGot results) = 6"

fun pending :: "string list \<Rightarrow> feeder_pc \<Rightarrow> string list" where
  "pending urls FIdle = urls"
| "pending urls (FSend rest) = rest"
| "pending urls FDone = []"

fun held :: "worker_pc \<Rightarrow> string list" where
  "held (WWork url) = [url]"
| "held (WSend result) = [URL result]"
| "held w = []"

definition held_at :: "pool \<Rightarrow> nat \<Rightarrow> string list" where
  "held_at s i = (case worker_at s i of None \<Rightarrow> [] | Some w \<Rightarrow> held w)"

fun gathered :: "collector_pc \<Rightarrow> ScrapeResult list" where
  "gathered (CRecv results) = results"
| "gathered (CSend results) = results"
| "gathered c = []"

fun collected_of :: "main_pc \<Rightarrow> collector_pc \<Rightarrow> ScrapeResult list" where
  "collected_of (MGot results) c = results"
| "collected_of m c = gathered c"

definition collected :: "pool \<Rightarrow> ScrapeResult list" where
  "collected s = collected_of (mainG s) (collector s)"

fun leaving :: "worker_pc \<Rightarrow> bool" where
  "leaving WDefer = True"
| "leaving WDone = True"
| "leaving w = False"

fun collecting_over :: "collector_pc \<Rightarrow> bool" where
  "collecting_over (CSend results) = True"
| "collecting_over CDone = True"
| "collecting_over c = False"

definition live :: "worker_pc list \<Rightarrow> nat" where
  "live ws = length (filter (\<lambda>w. w \<noteq> WDone) ws)"

fun spawned :: "int \<Rightarrow> main_pc \<Rightarrow> nat \<Rightarrow> bool" where
  "spawned n MGoFeeder k = (k = 0)"
| "spawned n MGoCollector k = (k = 0)"
| "spawned n (MLoop i) k = (int k = i - 1 \<and> i - 1 \<le> max n 0)"
| "spawned n (MGoWorker i) k = (int k = i - 1 \<and> i \<le> n)"
| "spawned n m k = (int k = max n 0)"

text \<open>The invariant of the control state.\<close>

definition ctrl_inv :: "int \<Rightarrow> pool \<Rightarrow> bool" where
  "ctrl_inv n s \<longleftrightarrow>
     \<not> panicked s \<and>
     (feeder s = FIdle \<longleftrightarrow> stage (mainG s) = 0) \<and>
     (collector s = CIdle \<longleftrightarrow> stage (mainG s) \<le> 1) \<and>
     (coordinator s = KIdle \<longleftrightarrow> stage (mainG s) \<le> 4) \<and>
     (collector s = CDone \<longleftrightarrow> stage (mainG s) = 6) \<and>
     spawned n (mainG s) (length (workers s)) \<and>
     (urlChannel_closed s \<longleftrightarrow> feeder s = FDone) \<and>
     (resultChannel_closed s \<longleftrightarrow> coordinator s = KDone) \<and>
     (\<forall>w \<in> set (workers s). leaving w \<longrightarrow> urlChannel_closed s) \<and>
     (coordinator s = KClose \<or> coordinator s = KDone \<longrightarrow> (\<forall>w \<in> set (workers s). w = WDone)) \<and>
     (collecting_over (collector s) \<longrightarrow> resultChannel_closed s) \<and>
     wg s = int (live (workers s)) + (if stage (mainG s) = 3 then 1 else 0)"

text \<open>Every task is in exactly one place: not yet sent, with a worker, or collected.\<close>

definition cons_inv :: "string list \<Rightarrow> pool \<Rightarrow> bool" where
  "cons_inv urls s \<longleftrightarrow>
     mset (map URL (collected s)) + mset (concat (map held (workers s))) +
       mset (pending urls (feeder s)) = mset urls \<and>
     (length (workers s) \<le> 1 \<longrightarrow>
       map URL (collected s) @ concat (map held (workers s)) @ pending urls (feeder s) = urls)"

definition pool_inv :: "int \<Rightarrow> string list \<Rightarrow> pool \<Rightarrow> bool" where
  "pool_inv n urls s \<longleftrightarrow> ctrl_inv n s \<and> cons_inv urls s"

subsection \<open>The range of Go's counters\<close>

text \<open>
  The counter of a \<^verbatim>\<open>sync.WaitGroup\<close> is a 32-bit signed integer: \<^verbatim>\<open>wg.Add(1)\<close> on a
  counter of \<open>2\<^sup>3\<^sup>1 - 1\<close> panics. The loop counter \<^verbatim>\<open>i\<close> of \<^verbatim>\<open>main\<close> is a 64-bit signed
  integer: \<^verbatim>\<open>i++\<close> on \<open>2\<^sup>6\<^sup>3 - 1\<close> wraps. The model counts in \<open>int\<close>, so it is the program
  only in the states from which the next \<^verbatim>\<open>wg.Add(1)\<close> and the next \<^verbatim>\<open>i++\<close> stay in these
  ranges. \<open>counters_in_range\<close> says that a state is such a state: the counter of the
  \<^verbatim>\<open>WaitGroup\<close> is in its range and stays there if the loop test succeeds, and the loop
  counter is in its range and stays there after \<^verbatim>\<open>i++\<close>.
\<close>

definition counters_in_range :: "int \<Rightarrow> pool \<Rightarrow> bool" where
  "counters_in_range numWorkers s \<longleftrightarrow>
     0 \<le> wg s \<and> wg s < 2 ^ 31 \<and>
     (case mainG s of
        MLoop i \<Rightarrow> 1 \<le> i \<and> i < 2 ^ 63 \<and> (i \<le> numWorkers \<longrightarrow> wg s + 1 < 2 ^ 31)
      | MGoWorker i \<Rightarrow> 1 \<le> i \<and> i + 1 < 2 ^ 63
      | _ \<Rightarrow> True)"

subsection \<open>A bound on the length of a run\<close>

text \<open>
  \<open>steps_left\<close> bounds the number of moves that a state can still make: every goroutine
  counts the moves it has left, and \<^verbatim>\<open>main\<close> also counts those of the goroutines it has
  not started yet. A URL still to be sent costs three moves (the hand-off, the scrape and
  the publication).
\<close>

fun main_weight :: "int \<Rightarrow> string list \<Rightarrow> main_pc \<Rightarrow> nat" where
  "main_weight n urls MGoFeeder = 9 + 4 * nat n + 3 * length urls"
| "main_weight n urls MGoCollector = 7 + 4 * nat n"
| "main_weight n urls (MLoop i) = 4 + 4 * nat (n + 1 - i)"
| "main_weight n urls (MGoWorker i) = 7 + 4 * nat (n - i)"
| "main_weight n urls MGoCoordinator = 3"
| "main_weight n urls m = 0"

fun feeder_weight :: "feeder_pc \<Rightarrow> nat" where
  "feeder_weight FIdle = 0"
| "feeder_weight (FSend rest) = 3 * length rest + 1"
| "feeder_weight FDone = 0"

fun worker_weight :: "worker_pc \<Rightarrow> nat" where
  "worker_weight (WWork url) = 4"
| "worker_weight (WSend result) = 3"
| "worker_weight WRecv = 2"
| "worker_weight WDefer = 1"
| "worker_weight WDone = 0"

fun collector_weight :: "collector_pc \<Rightarrow> nat" where
  "collector_weight CIdle = 0"
| "collector_weight (CRecv results) = 2"
| "collector_weight (CSend results) = 1"
| "collector_weight CDone = 0"

fun coordinator_weight :: "coordinator_pc \<Rightarrow> nat" where
  "coordinator_weight KIdle = 0"
| "coordinator_weight KWait = 2"
| "coordinator_weight KClose = 1"
| "coordinator_weight KDone = 0"

definition steps_left :: "int \<Rightarrow> string list \<Rightarrow> pool \<Rightarrow> nat" where
  "steps_left n urls s =
     (if panicked s then 0
      else 1 + main_weight n urls (mainG s) + feeder_weight (feeder s) +
           sum_list (map worker_weight (workers s)) + collector_weight (collector s) +
           coordinator_weight (coordinator s))"

subsection \<open>A scheduler that always finds a move\<close>

text \<open>
  \<open>pick\<close> chooses an action for a state: the next statement of \<^verbatim>\<open>main\<close> while it starts
  the goroutines, then a move of the first worker that has not returned, then the
  coordinator and the collector. \<open>world i url\<close> is what the clock and the network answer
  when worker \<open>i\<close> scrapes \<open>url\<close>.
\<close>

definition pick :: "(nat \<Rightarrow> string \<Rightarrow> time \<times> (error + Response) \<times> time) \<Rightarrow> pool \<Rightarrow> action" where
  "pick world s =
     (case mainG s of
        MGoFeeder \<Rightarrow> GoFeeder
      | MGoCollector \<Rightarrow> GoCollector
      | MLoop i \<Rightarrow> LoopTest
      | MGoWorker i \<Rightarrow> GoWorker
      | MGoCoordinator \<Rightarrow> GoCoordinator
      | _ \<Rightarrow>
        (case find (\<lambda>i. workers s ! i \<noteq> WDone) [0..<length (workers s)] of
           Some i \<Rightarrow>
             (case workers s ! i of
                WWork url \<Rightarrow> (case world i url of (t0, got, t1) \<Rightarrow> Scrape i t0 got t1)
              | WSend result \<Rightarrow> Publish i
              | WDefer \<Rightarrow> Done i
              | _ \<Rightarrow>
                (case feeder s of
                   FSend (url # rest) \<Rightarrow> Handoff i
                 | FSend [] \<Rightarrow> CloseURLs
                 | _ \<Rightarrow> LoopExit i))
         | None \<Rightarrow>
             (case coordinator s of
                KWait \<Rightarrow> WgWait
              | KClose \<Rightarrow> CloseResults
              | _ \<Rightarrow> (case collector s of CRecv results \<Rightarrow> CollectorExit | _ \<Rightarrow> Deliver))))"

subsection \<open>Moves that happen at most once\<close>

text \<open>
  Counters that a state determines: whether worker \<open>i\<close> has returned, whether \<^verbatim>\<open>main\<close>
  has received the slice, whether the coordinator has closed \<^verbatim>\<open>resultChannel\<close>.
\<close>

definition returned :: "pool \<Rightarrow> nat \<Rightarrow> nat" where
  "returned s i = (if worker_at s i = Some WDone then 1 else 0)"

definition delivered :: "pool \<Rightarrow> nat" where
  "delivered s = (if stage (mainG s) = 6 then 1 else 0)"

definition closes :: "pool \<Rightarrow> nat" where
  "closes s = (if coordinator s = KDone then 1 else 0)"

subsection \<open>A scenario\<close>

text \<open>
  Two workers and three tasks: \<open>A\<close> succeeds after 10 ms, \<open>B\<close> fails after 5 ms, \<open>C\<close>
  succeeds after 1 ms. Worker 0 takes \<open>A\<close>, worker 1 takes \<open>B\<close> and then \<open>C\<close>.
\<close>

definition scenario_urls :: "string list" where
  "scenario_urls = [''A'', ''B'', ''C'']"

definition scenario_sched :: "action list" where
  "scenario_sched =
     [GoFeeder, GoCollector, LoopTest, GoWorker, LoopTest, GoWorker, LoopTest, GoCoordinator,
      Handoff 0, Handoff 1,
      Scrape 1 0 (Inl ''network unreachable'') 5000000, Publish 1,
      Handoff 1,
      Scrape 1 5000000 (Inr (Response 200 (- 1))) 6000000, Publish 1,
      CloseURLs, LoopExit 1,
      Scrape 0 0 (Inr (Response 200 12)) 10000000, Publish 0,
      Done 1, LoopExit 0, Done 0,
      WgWait, CloseResults, CollectorExit, Deliver]"

definition scenario_results :: "ScrapeResult list" where
  "scenario_results =
     [\<lparr>URL = ''B'', StatusCode = 0, ContentLength = 0, Duration = 5000000,
       Error = Some ''network unreachable''\<rparr>,
      \<lparr>URL = ''C'', StatusCode = 200, ContentLength = - 1, Duration = 1000000, Error = None\<rparr>,
      \<lparr>URL = ''A'', StatusCode = 200, ContentLength = 12, Duration = 10000000, Error = None\<rparr>]"

definition scenario_final :: pool where
  "scenario_final =
     \<lparr>mainG = MGot scenario_results, feeder = FDone, workers = [WDone, WDone],
      collector = CDone, coordinator = KDone, wg = 0, urlChannel_closed = True,
      resultChannel_closed = True, panicked = False\<rparr>"

text \<open>The same program with \<^verbatim>\<open>numWorkers = 0\<close> and one task.\<close>

definition idle_sched :: "action list" where
  "idle_sched =
     [GoFeeder, GoCollector, LoopTest, GoCoordinator, WgWait, CloseResults, CollectorExit,
      Deliver]"

definition idle_final :: pool where
  "idle_final =
     \<lparr>mainG = MGot [], feeder = FSend [''A''], workers = [], collector = CDone,
      coordinator = KDone, wg = 0, urlChannel_closed = False,
      resultChannel_closed = True, panicked = False\<rparr>"

text \<open>One worker and two tasks; the network answers \<open>got\<close> to both fetches.\<close>

definition single_sched :: "error + Response \<Rightarrow> action list" where
  "single_sched got =
     [GoFeeder, GoCollector, LoopTest, GoWorker, LoopTest, GoCoordinator,
      Handoff 0, Scrape 0 0 got 1000000, Publish 0,
      Handoff 0, Scrape 0 1000000 got 3000000, Publish 0,
      CloseURLs, LoopExit 0, Done 0, WgWait, CloseResults, CollectorExit, Deliver]"

definition single_final :: "error + Response \<Rightarrow> pool" where
  "single_final got =
     \<lparr>mainG = MGot [scrapeURL ''A'' 0 got 1000000, scrapeURL ''B'' 1000000 got 3000000],
      feeder = FDone, workers = [WDone], collector = CDone, coordinator = KDone, wg = 0,
      urlChannel_closed = True, resultChannel_closed = True, panicked = False\<rparr>"

section \<open>Properties of \<^verbatim>\<open>scrapeURL\<close>\<close>

text \<open>
  C9: for every input url, on the error branch and on the success branch alike, the
  result of \<^verbatim>\<open>scrapeURL\<close> has the input url in its \<^verbatim>\<open>URL\<close> field and the measured
  elapsed time, \<^verbatim>\<open>time.Since(start)\<close>, in its \<^verbatim>\<open>Duration\<close> field.
\<close>

theorem scrapeURL_url_duration:
  "URL (scrapeURL url start (Inl err) now) = url \<and>
   Duration (scrapeURL url start (Inl err) now) = time_Since start now \<and>
   URL (scrapeURL url start (Inr resp) now) = url \<and>
   Duration (scrapeURL url start (Inr resp) now) = time_Since start now"
  by (simp add: scrapeURL_def)

text \<open>
  C10: when the fetch fails, the result has a non-nil \<^verbatim>\<open>Error\<close> (the error of the fetch)
  and the zero values in \<^verbatim>\<open>StatusCode\<close> and \<^verbatim>\<open>ContentLength\<close>; when it succeeds,
  \<^verbatim>\<open>Error\<close> is nil and the two fields are those of the response. So a result never has
  both an error and a payload that differs from the zero values.
\<close>

theorem scrapeURL_error_payload:
  "Error (scrapeURL url start (Inl err) now) = Some err \<and>
   StatusCode (scrapeURL url start (Inl err) now) = 0 \<and>
   ContentLength (scrapeURL url start (Inl err) now) = 0 \<and>
   Error (scrapeURL url start (Inr resp) now) = None \<and>
   StatusCode (scrapeURL url start (Inr resp) now) = resp_StatusCode resp \<and>
   ContentLength (scrapeURL url start (Inr resp) now) = resp_ContentLength resp \<and>
   (\<forall>got. Error (scrapeURL url start got now) = None \<or>
      (StatusCode (scrapeURL url start got now) = 0 \<and>
       ContentLength (scrapeURL url start got now) = 0))"
  by (auto simp: scrapeURL_def split: sum.splits)

section \<open>Properties of the worker pool\<close>

subsection \<open>The moves of the program, case by case\<close>

lemma step_cases [consumes 1, case_names GoFeeder GoCollector LoopIn LoopOut GoWorker
    GoCoordinator HandoffPanic Handoff CloseURLsPanic CloseURLs Scrape PublishPanic Publish
    LoopExit Done WgWait CloseResultsPanic CloseResults CollectorExit Deliver]:
  assumes "step n urls a s = Some s'"
  obtains
    (GoFeeder) "a = GoFeeder" "\<not> panicked s" "mainG s = MGoFeeder"
      "s' = s\<lparr>mainG := MGoCollector, feeder := FSend urls\<rparr>"
  | (GoCollector) "a = GoCollector" "\<not> panicked s" "mainG s = MGoCollector"
      "s' = s\<lparr>mainG := MLoop 1, collector := CRecv []\<rparr>"
  | (LoopIn) i where "a = LoopTest" "\<not> panicked s" "mainG s = MLoop i" "i \<le> n"
      "s' = wg_Add 1 (s\<lparr>mainG := MGoWorker i\<rparr>)"
  | (LoopOut) i where "a = LoopTest" "\<not> panicked s" "mainG s = MLoop i" "\<not> i \<le> n"
      "s' = s\<lparr>mainG := MGoCoordinator\<rparr>"
  | (GoWorker) i where "a = GoWorker" "\<not> panicked s" "mainG s = MGoWorker i"
      "s' = s\<lparr>mainG := MLoop (i + 1), workers := workers s @ [WRecv]\<rparr>"
  | (GoCoordinator) "a = GoCoordinator" "\<not> panicked s" "mainG s = MGoCoordinator"
      "s' = s\<lparr>mainG := MWait, coordinator := KWait\<rparr>"
  | (HandoffPanic) i url rest where "a = Handoff i" "\<not> panicked s"
      "feeder s = FSend (url # rest)" "urlChannel_closed s" "s' = panic s"
  | (Handoff) i url rest where "a = Handoff i" "\<not> panicked s"
      "feeder s = FSend (url # rest)" "\<not> urlChannel_closed s"
      "i < length (workers s)" "workers s ! i = WRecv"
      "s' = s\<lparr>feeder := FSend rest, workers := (workers s)[i := WWork url]\<rparr>"
  | (CloseURLsPanic) "a = CloseURLs" "\<not> panicked s" "feeder s = FSend []"
      "urlChannel_closed s" "s' = panic s"
  | (CloseURLs) "a = CloseURLs" "\<not> panicked s" "feeder s = FSend []"
      "\<not> urlChannel_closed s" "s' = s\<lparr>feeder := FDone, urlChannel_closed := True\<rparr>"
  | (Scrape) i t0 got t1 url where "a = Scrape i t0 got t1" "\<not> panicked s"
      "i < length (workers s)" "workers s ! i = WWork url"
      "s' = s\<lparr>workers := (workers s)[i := WSend (scrapeURL url t0 got t1)]\<rparr>"
  | (PublishPanic) i result where "a = Publish i" "\<not> panicked s"
      "i < length (workers s)" "workers s ! i = WSend result"
      "resultChannel_closed s" "s' = panic s"
  | (Publish) i result results where "a = Publish i" "\<not> panicked s"
      "i < length (workers s)" "workers s ! i = WSend result"
      "\<not> resultChannel_closed s" "collector s = CRecv results"
      "s' = s\<lparr>collector := CRecv (results @ [result]), workers := (workers s)[i := WRecv]\<rparr>"
  | (LoopExit) i where "a = LoopExit i" "\<not> panicked s"
      "i < length (workers s)" "workers s ! i = WRecv" "urlChannel_closed s"
      "s' = s\<lparr>workers := (workers s)[i := WDefer]\<rparr>"
  | (Done) i where "a = Done i" "\<not> panicked s"
      "i < length (workers s)" "workers s ! i = WDefer"
      "s' = wg_Add (- 1) (s\<lparr>workers := (workers s)[i := WDone]\<rparr>)"
  | (WgWait) "a = WgWait" "\<not> panicked s" "coordinator s = KWait" "wg s = 0"
      "s' = s\<lparr>coordinator := KClose\<rparr>"
  | (CloseResultsPanic) "a = CloseResults" "\<not> panicked s" "coordinator s = KClose"
      "resultChannel_closed s" "s' = panic s"
  | (CloseResults) "a = CloseResults" "\<not> panicked s" "coordinator s = KClose"
      "\<not> resultChannel_closed s" "s' = s\<lparr>coordinator := KDone, resultChannel_closed := True\<rparr>"
  | (CollectorExit) results where "a = CollectorExit" "\<not> panicked s"
      "collector s = CRecv results" "resultChannel_closed s"
      "s' = s\<lparr>collector := CSend results\<rparr>"
  | (Deliver) results where "a = Deliver" "\<not> panicked s"
      "collector s = CSend results" "mainG s = MWait"
      "s' = s\<lparr>collector := CDone, mainG := MGot results\<rparr>"
proof (cases a)
  case GoFeeder
  with assms that(1) show ?thesis
    by (auto simp: step_def split: if_splits)
next
  case GoCollector
  with assms that(2) show ?thesis
    by (auto simp: step_def split: if_splits)
next
  case LoopTest
  with assms that(3,4) show ?thesis
    by (auto simp: step_def split: if_splits main_pc.splits)
next
  case GoWorker
  with assms that(5) show ?thesis
    by (auto simp: step_def split: if_splits main_pc.splits)
next
  case GoCoordinator
  with assms that(6) show ?thesis
    by (auto simp: step_def split: if_splits)
next
  case (Handoff i)
  with assms that(7,8) show ?thesis
    by (auto simp: step_def worker_at_def set_worker_def
        split: if_splits feeder_pc.splits list.splits)
next
  case CloseURLs
  with assms that(9,10) show ?thesis
    by (auto simp: step_def split: if_splits)
next
  case (Scrape i t0 got t1)
  with assms that(11) show ?thesis
    by (auto simp: step_def worker_at_def set_worker_def
        split: if_splits option.splits worker_pc.splits)
next
  case (Publish i)
  with assms that(12,13) show ?thesis
    by (auto simp: step_def worker_at_def set_worker_def
        split: if_splits option.splits worker_pc.splits collector_pc.splits)
next
  case (LoopExit i)
  with assms that(14) show ?thesis
    by (auto simp: step_def worker_at_def set_worker_def split: if_splits)
next
  case (Done i)
  with assms that(15) show ?thesis
    by (auto simp: step_def worker_at_def set_worker_def split: if_splits)
next
  case WgWait
  with assms that(16) show ?thesis
    by (auto simp: step_def split: if_splits)
next
  case CloseResults
  with assms that(17,18) show ?thesis
    by (auto simp: step_def split: if_splits)
next
  case CollectorExit
  with assms that(19) show ?thesis
    by (auto simp: step_def split: if_splits collector_pc.splits)
next
  case Deliver
  with assms that(20) show ?thesis
    by (auto simp: step_def split: if_splits collector_pc.splits)
qed

subsection \<open>The invariant of the control state\<close>

lemma live_append: "live (xs @ ys) = live xs + live ys"
  by (simp add: live_def)

lemma live_single: "live [w] = (if w = WDone then 0 else 1)"
  by (simp add: live_def)

lemma live_update:
  assumes "i < length ws"
  shows "live (ws[i := w]) + live [ws ! i] = live ws + live [w]"
proof -
  have "ws = take i ws @ ws ! i # drop (Suc i) ws"
    using assms by (rule id_take_nth_drop)
  moreover have "ws[i := w] = take i ws @ w # drop (Suc i) ws"
    using assms by (rule upd_conv_take_nth_drop)
  ultimately have "live ws = live (take i ws) + live [ws ! i] + live (drop (Suc i) ws)"
    and "live (ws[i := w]) = live (take i ws) + live [w] + live (drop (Suc i) ws)"
    by (metis append_Cons append_Nil live_append add.assoc)+
  then show ?thesis by simp
qed

lemma live_update_same:
  "i < length ws \<Longrightarrow> ws ! i \<noteq> WDone \<Longrightarrow> w \<noteq> WDone \<Longrightarrow> live (ws[i := w]) = live ws"
  using live_update [of i ws w] by (simp add: live_single)

lemma live_update_done:
  "i < length ws \<Longrightarrow> ws ! i \<noteq> WDone \<Longrightarrow> Suc (live (ws[i := WDone])) = live ws"
  using live_update [of i ws WDone] by (simp add: live_single)

lemma all_update:
  "\<forall>w \<in> set ws. P w \<Longrightarrow> P x \<Longrightarrow> \<forall>w \<in> set (ws[i := x]). P w"
  by (metis insert_iff set_update_subset_insert subsetD)

lemma live_zero: "live ws = 0 \<longleftrightarrow> (\<forall>w \<in> set ws. w = WDone)"
  by (auto simp: live_def filter_empty_conv)

lemma leaving_update:
  "\<forall>x \<in> set ws. leaving x \<longrightarrow> C \<Longrightarrow> leaving w \<longrightarrow> C \<Longrightarrow>
   \<forall>x \<in> set (ws[i := w]). leaving x \<longrightarrow> C"
  using all_update [where P = "\<lambda>x. leaving x \<longrightarrow> C"] by blast

lemma not_all_done: "i < length ws \<Longrightarrow> ws ! i \<noteq> WDone \<Longrightarrow> \<not> (\<forall>w \<in> set ws. w = WDone)"
  using nth_mem by blast

lemma ctrl_inv_worker_move:
  assumes inv: "ctrl_inv n s" and i: "i < length (workers s)"
    and old: "workers s ! i \<noteq> WDone" and new: "w \<noteq> WDone"
    and leave: "leaving w \<longrightarrow> urlChannel_closed s"
  shows "ctrl_inv n (s\<lparr>workers := (workers s)[i := w]\<rparr>)"
proof -
  have 1: "live ((workers s)[i := w]) = live (workers s)"
    using i old new by (rule live_update_same)
  have 2: "\<not> (\<forall>w \<in> set (workers s). w = WDone)"
    using i old by (rule not_all_done)
  have 3: "\<forall>x \<in> set ((workers s)[i := w]). leaving x \<longrightarrow> urlChannel_closed s"
  proof (rule leaving_update)
    show "\<forall>x \<in> set (workers s). leaving x \<longrightarrow> urlChannel_closed s"
      using inv unfolding ctrl_inv_def by blast
    show "leaving w \<longrightarrow> urlChannel_closed s" by (rule leave)
  qed
  have 4: "\<not> (coordinator s = KClose \<or> coordinator s = KDone)"
    using inv 2 unfolding ctrl_inv_def by blast
  show ?thesis
    using inv 1 3 4 unfolding ctrl_inv_def by auto
qed

lemma ctrl_inv_feeder_send:
  assumes "ctrl_inv n s" and "feeder s = FSend us"
  shows "ctrl_inv n (s\<lparr>feeder := FSend vs\<rparr>)"
  using assms unfolding ctrl_inv_def by auto

lemma ctrl_inv_collector_recv:
  assumes "ctrl_inv n s" and "collector s = CRecv rs"
  shows "ctrl_inv n (s\<lparr>collector := CRecv rs'\<rparr>)"
  using assms unfolding ctrl_inv_def by auto

lemma ctrl_inv_worker_done:
  assumes inv: "ctrl_inv n s" and i: "i < length (workers s)"
    and old: "workers s ! i = WDefer"
  shows "ctrl_inv n (wg_Add (- 1) (s\<lparr>workers := (workers s)[i := WDone]\<rparr>))"
proof -
  have 1: "Suc (live ((workers s)[i := WDone])) = live (workers s)"
    using i old live_update_done [of i "workers s"] by simp
  have 2: "\<not> (\<forall>w \<in> set (workers s). w = WDone)"
    using i old not_all_done [of i "workers s"] by simp
  have "leaving (workers s ! i)" using old by simp
  then have closed: "urlChannel_closed s"
    using inv i nth_mem unfolding ctrl_inv_def by blast
  have 3: "\<forall>x \<in> set ((workers s)[i := WDone]). leaving x \<longrightarrow> urlChannel_closed s"
    using closed by simp
  have 4: "\<not> (coordinator s = KClose \<or> coordinator s = KDone)"
    using inv 2 unfolding ctrl_inv_def by blast
  have 5: "wg s = int (live (workers s)) + (if stage (mainG s) = 3 then 1 else 0)"
    using inv unfolding ctrl_inv_def by simp
  have 6: "wg s - 1 = int (live ((workers s)[i := WDone])) + (if stage (mainG s) = 3 then 1 else 0)"
    using 1 5 by linarith
  then have 7: "\<not> wg s - 1 < 0" by (simp split: if_splits)
  show ?thesis
    using inv 3 4 6 7 unfolding ctrl_inv_def wg_Add_def by auto
qed

lemma ctrl_inv_step:
  assumes inv: "ctrl_inv n s" and "step n urls a s = Some s'"
  shows "ctrl_inv n s'"
  using assms(2)
proof (cases rule: step_cases)
  case GoFeeder
  with inv show ?thesis by (auto simp: ctrl_inv_def)
next
  case GoCollector
  with inv show ?thesis by (auto simp: ctrl_inv_def)
next
  case (LoopIn i)
  with inv show ?thesis by (auto simp: ctrl_inv_def wg_Add_def panic_def)
next
  case (LoopOut i)
  with inv show ?thesis by (auto simp: ctrl_inv_def)
next
  case (GoWorker i)
  with inv show ?thesis by (auto simp: ctrl_inv_def live_append live_single)
next
  case GoCoordinator
  with inv show ?thesis by (auto simp: ctrl_inv_def)
next
  case (HandoffPanic i url rest)
  with inv show ?thesis by (auto simp: ctrl_inv_def)
next
  case (Handoff i url rest)
  have "ctrl_inv n (s\<lparr>feeder := FSend rest\<rparr>)"
    using inv Handoff(3) by (rule ctrl_inv_feeder_send)
  then have "ctrl_inv n (s\<lparr>feeder := FSend rest\<rparr>
      \<lparr>workers := (workers (s\<lparr>feeder := FSend rest\<rparr>))[i := WWork url]\<rparr>)"
    using Handoff by (intro ctrl_inv_worker_move) simp_all
  then show ?thesis using Handoff by simp
next
  case CloseURLsPanic
  with inv show ?thesis by (auto simp: ctrl_inv_def)
next
  case CloseURLs
  with inv show ?thesis by (auto simp: ctrl_inv_def)
next
  case (Scrape i t0 got t1 url)
  have "ctrl_inv n (s\<lparr>workers := (workers s)[i := WSend (scrapeURL url t0 got t1)]\<rparr>)"
    using inv Scrape by (intro ctrl_inv_worker_move) simp_all
  then show ?thesis using Scrape by simp
next
  case (PublishPanic i result)
  then have "\<not> (\<forall>w \<in> set (workers s). w = WDone)"
    using not_all_done [of i "workers s"] by simp
  with inv PublishPanic show ?thesis unfolding ctrl_inv_def by blast
next
  case (Publish i result results)
  have "ctrl_inv n (s\<lparr>collector := CRecv (results @ [result])\<rparr>)"
    using inv Publish(6) by (rule ctrl_inv_collector_recv)
  then have "ctrl_inv n (s\<lparr>collector := CRecv (results @ [result])\<rparr>
      \<lparr>workers := (workers (s\<lparr>collector := CRecv (results @ [result])\<rparr>))[i := WRecv]\<rparr>)"
    using Publish by (intro ctrl_inv_worker_move) simp_all
  then show ?thesis using Publish by simp
next
  case (LoopExit i)
  have "ctrl_inv n (s\<lparr>workers := (workers s)[i := WDefer]\<rparr>)"
    using inv LoopExit by (intro ctrl_inv_worker_move) simp_all
  then show ?thesis using LoopExit by simp
next
  case (Done i)
  then show ?thesis using inv ctrl_inv_worker_done by simp
next
  case WgWait
  with inv show ?thesis by (auto simp: ctrl_inv_def live_zero split: if_splits)
next
  case CloseResultsPanic
  with inv show ?thesis by (auto simp: ctrl_inv_def)
next
  case CloseResults
  with inv show ?thesis by (auto simp: ctrl_inv_def)
next
  case (CollectorExit results)
  with inv show ?thesis by (auto simp: ctrl_inv_def)
next
  case (Deliver results)
  with inv show ?thesis by (auto simp: ctrl_inv_def)
qed

subsection \<open>Every task is in one place\<close>

lemma URL_scrapeURL: "URL (scrapeURL url t0 got t1) = url"
  by (simp add: scrapeURL_def split: sum.splits)

lemma held_update:
  assumes "i < length ws"
  shows "mset (concat (map held (ws[i := w]))) + mset (held (ws ! i)) =
         mset (concat (map held ws)) + mset (held w)"
proof -
  have "ws = take i ws @ ws ! i # drop (Suc i) ws"
    using assms by (rule id_take_nth_drop)
  then have "concat (map held ws) =
      concat (map held (take i ws)) @ held (ws ! i) @ concat (map held (drop (Suc i) ws))"
    by (metis concat.simps(2) concat_append list.simps(9) map_append)
  moreover have "concat (map held (ws[i := w])) =
      concat (map held (take i ws)) @ held w @ concat (map held (drop (Suc i) ws))"
    using assms by (simp add: upd_conv_take_nth_drop)
  ultimately show ?thesis by simp
qed

lemma held_update_same:
  "i < length ws \<Longrightarrow> held (ws ! i) = held w \<Longrightarrow>
   concat (map held (ws[i := w])) = concat (map held ws)"
  by (metis list_update_id map_update)

lemma single_worker: "length ws \<le> 1 \<Longrightarrow> i < length ws \<Longrightarrow> ws = [ws ! i] \<and> i = 0"
  by (cases ws) auto

lemma cons_inv_panic: "cons_inv urls (panic s) = cons_inv urls s"
  by (simp add: cons_inv_def panic_def collected_def)

lemma cons_inv_wg_Add: "cons_inv urls (wg_Add d s) = cons_inv urls s"
  by (simp add: cons_inv_def wg_Add_def panic_def collected_def)

lemma cons_inv_step:
  assumes ctrl: "ctrl_inv n s" and inv: "cons_inv urls s" and "step n urls a s = Some s'"
  shows "cons_inv urls s'"
  using assms(3)
proof (cases rule: step_cases)
  case GoFeeder
  moreover have "feeder s = FIdle" using ctrl GoFeeder by (simp add: ctrl_inv_def)
  ultimately show ?thesis using inv by (simp add: cons_inv_def collected_def)
next
  case GoCollector
  moreover have "collector s = CIdle" using ctrl GoCollector by (simp add: ctrl_inv_def)
  ultimately show ?thesis using inv by (simp add: cons_inv_def collected_def)
next
  case (LoopIn i)
  then show ?thesis using inv by (simp add: cons_inv_wg_Add) (simp add: cons_inv_def collected_def)
next
  case (LoopOut i)
  then show ?thesis using inv by (simp add: cons_inv_def collected_def)
next
  case (GoWorker i)
  then show ?thesis using inv by (auto simp: cons_inv_def collected_def)
next
  case GoCoordinator
  then show ?thesis using inv by (simp add: cons_inv_def collected_def)
next
  case (HandoffPanic i url rest)
  then show ?thesis using inv by (simp add: cons_inv_panic)
next
  case (Handoff i url rest)
  have m: "mset (concat (map held ((workers s)[i := WWork url]))) =
      mset (concat (map held (workers s))) + {#url#}"
    using held_update [of i "workers s" "WWork url"] Handoff by simp
  have l: "length (workers s) \<le> 1 \<Longrightarrow> workers s = [WRecv] \<and> i = 0"
    using single_worker [of "workers s" i] Handoff by simp
  show ?thesis using inv Handoff m l by (auto simp: cons_inv_def collected_def)
next
  case CloseURLsPanic
  then show ?thesis using inv by (simp add: cons_inv_panic)
next
  case CloseURLs
  then show ?thesis using inv by (simp add: cons_inv_def collected_def)
next
  case (Scrape i t0 got t1 url)
  have "concat (map held ((workers s)[i := WSend (scrapeURL url t0 got t1)])) =
      concat (map held (workers s))"
    using Scrape by (intro held_update_same) (simp_all add: URL_scrapeURL)
  then show ?thesis using inv Scrape by (simp add: cons_inv_def collected_def)
next
  case (PublishPanic i result)
  then show ?thesis using inv by (simp add: cons_inv_panic)
next
  case (Publish i result results)
  have m: "mset (concat (map held ((workers s)[i := WRecv]))) + {#URL result#} =
      mset (concat (map held (workers s)))"
    using held_update [of i "workers s" WRecv] Publish by simp
  have l: "length (workers s) \<le> 1 \<Longrightarrow> workers s = [WSend result] \<and> i = 0"
    using single_worker [of "workers s" i] Publish by simp
  have g: "stage (mainG s) \<noteq> 6" using ctrl Publish by (auto simp: ctrl_inv_def)
  then have c: "collected s = results"
    "collected (s\<lparr>collector := CRecv (results @ [result]), workers := (workers s)[i := WRecv]\<rparr>)
      = results @ [result]"
    using Publish by (cases "mainG s"; simp add: collected_def)+
  show ?thesis using inv m l unfolding cons_inv_def Publish(7) c
    by (auto simp: m [symmetric])
next
  case (LoopExit i)
  have "concat (map held ((workers s)[i := WDefer])) = concat (map held (workers s))"
    using LoopExit by (intro held_update_same) simp_all
  then show ?thesis using inv LoopExit by (simp add: cons_inv_def collected_def)
next
  case (Done i)
  have "concat (map held ((workers s)[i := WDone])) = concat (map held (workers s))"
    using Done by (intro held_update_same) simp_all
  then show ?thesis using inv Done
    by (simp add: cons_inv_wg_Add) (simp add: cons_inv_def collected_def)
next
  case WgWait
  then show ?thesis using inv by (simp add: cons_inv_def collected_def)
next
  case CloseResultsPanic
  then show ?thesis using inv by (simp add: cons_inv_panic)
next
  case CloseResults
  then show ?thesis using inv by (simp add: cons_inv_def collected_def)
next
  case (CollectorExit results)
  then show ?thesis using inv by (cases "mainG s") (simp_all add: cons_inv_def collected_def)
next
  case (Deliver results)
  then show ?thesis using inv by (simp add: cons_inv_def collected_def)
qed

subsection \<open>The invariant along a run\<close>

lemma ctrl_invD:
  assumes "ctrl_inv n s"
  shows ci_panic: "\<not> panicked s"
    and ci_feeder: "feeder s = FIdle \<longleftrightarrow> stage (mainG s) = 0"
    and ci_collector: "collector s = CIdle \<longleftrightarrow> stage (mainG s) \<le> 1"
    and ci_coordinator: "coordinator s = KIdle \<longleftrightarrow> stage (mainG s) \<le> 4"
    and ci_done: "collector s = CDone \<longleftrightarrow> stage (mainG s) = 6"
    and ci_spawned: "spawned n (mainG s) (length (workers s))"
    and ci_url: "urlChannel_closed s \<longleftrightarrow> feeder s = FDone"
    and ci_result: "resultChannel_closed s \<longleftrightarrow> coordinator s = KDone"
    and ci_leaving: "\<forall>w \<in> set (workers s). leaving w \<longrightarrow> urlChannel_closed s"
    and ci_closing: "coordinator s = KClose \<or> coordinator s = KDone \<longrightarrow>
      (\<forall>w \<in> set (workers s). w = WDone)"
    and ci_over: "collecting_over (collector s) \<longrightarrow> resultChannel_closed s"
    and ci_wg: "wg s = int (live (workers s)) + (if stage (mainG s) = 3 then 1 else 0)"
  using assms unfolding ctrl_inv_def by blast+

lemma pool_inv_initial: "pool_inv n urls initial"
  by (simp add: pool_inv_def ctrl_inv_def cons_inv_def initial_def collected_def live_def)

lemma pool_inv_step:
  "pool_inv n urls s \<Longrightarrow> step n urls a s = Some s' \<Longrightarrow> pool_inv n urls s'"
  unfolding pool_inv_def using ctrl_inv_step cons_inv_step by blast

lemma pool_inv_run_from:
  "pool_inv n urls s \<Longrightarrow> run_from n urls s sched = Some s' \<Longrightarrow> pool_inv n urls s'"
proof (induction sched arbitrary: s)
  case Nil
  then show ?case by simp
next
  case (Cons a sched)
  then show ?case by (auto split: option.splits dest: pool_inv_step)
qed

lemma pool_inv_run: "run n urls sched = Some s \<Longrightarrow> pool_inv n urls s"
  unfolding run_def using pool_inv_initial pool_inv_run_from by blast

lemma run_from_append:
  "run_from n urls s (xs @ ys) =
     (case run_from n urls s xs of None \<Rightarrow> None | Some s' \<Rightarrow> run_from n urls s' ys)"
  by (induction xs arbitrary: s) (auto split: option.splits)

lemma held_all_done: "\<forall>w \<in> set ws. w = WDone \<Longrightarrow> concat (map held ws) = []"
  by (induction ws) auto

text \<open>What the invariant says once the result channel is closed.\<close>

lemma closed_all_done:
  assumes "ctrl_inv n s" and "resultChannel_closed s"
  shows "\<forall>w \<in> set (workers s). w = WDone" and "int (length (workers s)) = max n 0"
    and "wg s = 0"
proof -
  have k: "coordinator s = KDone" using assms ci_result by blast
  then show a: "\<forall>w \<in> set (workers s). w = WDone" using ci_closing [OF assms(1)] by blast
  have st: "\<not> stage (mainG s) \<le> 4" using ci_coordinator [OF assms(1)] k by simp
  then show "int (length (workers s)) = max n 0"
    using ci_spawned [OF assms(1)] by (cases "mainG s") simp_all
  have "live (workers s) = 0" using a by (simp add: live_zero)
  then show "wg s = 0" using ci_wg [OF assms(1)] st by simp
qed

lemma closed_feeder_done:
  assumes "ctrl_inv n s" and "resultChannel_closed s" and "1 \<le> n"
  shows "feeder s = FDone"
proof -
  have "workers s \<noteq> []" using closed_all_done(2) [OF assms(1,2)] assms(3) by auto
  then obtain w where w: "w \<in> set (workers s)" by (cases "workers s") auto
  then have "w = WDone" using closed_all_done(1) [OF assms(1,2)] by blast
  then have "leaving w" by simp
  then show ?thesis using ci_leaving [OF assms(1)] ci_url [OF assms(1)] w by blast
qed

lemma delivered_closed:
  assumes "ctrl_inv n s" and "mainG s = MGot rs"
  shows "resultChannel_closed s"
proof -
  have "collector s = CDone" using assms ci_done by simp
  then show ?thesis using ci_over [OF assms(1)] by simp
qed

lemma closed_collected:
  assumes "pool_inv n urls s" and "resultChannel_closed s" and "1 \<le> n"
  shows "mset (map URL (collected s)) = mset urls"
proof -
  have c: "ctrl_inv n s" and k: "cons_inv urls s" using assms(1) by (simp_all add: pool_inv_def)
  have h: "concat (map held (workers s)) = []"
    using closed_all_done(1) [OF c assms(2)] by (rule held_all_done)
  have p: "pending urls (feeder s) = []"
    using closed_feeder_done [OF c assms(2,3)] by simp
  have "mset (map URL (collected s)) + mset (concat (map held (workers s))) +
      mset (pending urls (feeder s)) = mset urls"
    using k unfolding cons_inv_def by blast
  then show ?thesis unfolding h p by simp
qed

subsection \<open>No run is longer than the bound\<close>

lemma weight_update:
  assumes "i < length ws"
  shows "sum_list (map worker_weight (ws[i := w])) + worker_weight (ws ! i) =
         sum_list (map worker_weight ws) + worker_weight w"
proof -
  have "ws = take i ws @ ws ! i # drop (Suc i) ws"
    using assms by (rule id_take_nth_drop)
  then have "sum_list (map worker_weight ws) =
      sum_list (map worker_weight (take i ws)) + worker_weight (ws ! i) +
      sum_list (map worker_weight (drop (Suc i) ws))"
    by (metis add.assoc list.simps(9) map_append sum_list.Cons sum_list_append)
  moreover have "sum_list (map worker_weight (ws[i := w])) =
      sum_list (map worker_weight (take i ws)) + worker_weight w +
      sum_list (map worker_weight (drop (Suc i) ws))"
    using assms by (simp add: upd_conv_take_nth_drop)
  ultimately show ?thesis by simp
qed

lemma steps_left_panic: "\<not> panicked s \<Longrightarrow> steps_left n urls (panic s) < steps_left n urls s"
  by (simp add: steps_left_def panic_def)

lemma steps_left_wg_Add: "steps_left n urls (wg_Add d s) \<le> steps_left n urls s"
  by (simp add: steps_left_def wg_Add_def panic_def)

lemma steps_left_step:
  assumes "step n urls a s = Some s'"
  shows "steps_left n urls s' < steps_left n urls s"
  using assms
proof (cases rule: step_cases)
  case GoFeeder
  then show ?thesis by (cases "feeder s") (simp_all add: steps_left_def)
next
  case GoCollector
  then show ?thesis by (cases "collector s") (simp_all add: steps_left_def)
next
  case (LoopIn i)
  have "nat (n + 1 - i) = Suc (nat (n - i))" using LoopIn(4) by simp
  then have "steps_left n urls (s\<lparr>mainG := MGoWorker i\<rparr>) < steps_left n urls s"
    using LoopIn by (simp add: steps_left_def)
  then show ?thesis
    using steps_left_wg_Add [of n urls 1 "s\<lparr>mainG := MGoWorker i\<rparr>"] LoopIn(5) by simp
next
  case (LoopOut i)
  then show ?thesis by (simp add: steps_left_def)
next
  case (GoWorker i)
  then show ?thesis by (simp add: steps_left_def)
next
  case GoCoordinator
  then show ?thesis by (cases "coordinator s") (simp_all add: steps_left_def)
next
  case (HandoffPanic i url rest)
  then show ?thesis by (simp add: steps_left_panic)
next
  case (Handoff i url rest)
  then show ?thesis
    using weight_update [of i "workers s" "WWork url"] by (simp add: steps_left_def)
next
  case CloseURLsPanic
  then show ?thesis by (simp add: steps_left_panic)
next
  case CloseURLs
  then show ?thesis by (simp add: steps_left_def)
next
  case (Scrape i t0 got t1 url)
  then show ?thesis
    using weight_update [of i "workers s" "WSend (scrapeURL url t0 got t1)"]
    by (simp add: steps_left_def)
next
  case (PublishPanic i result)
  then show ?thesis by (simp add: steps_left_panic)
next
  case (Publish i result results)
  then show ?thesis
    using weight_update [of i "workers s" WRecv] by (simp add: steps_left_def)
next
  case (LoopExit i)
  then show ?thesis
    using weight_update [of i "workers s" WDefer] by (simp add: steps_left_def)
next
  case (Done i)
  then have "steps_left n urls (s\<lparr>workers := (workers s)[i := WDone]\<rparr>) < steps_left n urls s"
    using weight_update [of i "workers s" WDone] by (simp add: steps_left_def)
  then show ?thesis
    using steps_left_wg_Add [of n urls "- 1" "s\<lparr>workers := (workers s)[i := WDone]\<rparr>"] Done(5)
    by simp
next
  case WgWait
  then show ?thesis by (simp add: steps_left_def)
next
  case CloseResultsPanic
  then show ?thesis by (simp add: steps_left_panic)
next
  case CloseResults
  then show ?thesis by (simp add: steps_left_def)
next
  case (CollectorExit results)
  then show ?thesis by (simp add: steps_left_def)
next
  case (Deliver results)
  then show ?thesis by (simp add: steps_left_def)
qed

lemma steps_left_run_from:
  "run_from n urls s sched = Some s' \<Longrightarrow>
   steps_left n urls s' + length sched \<le> steps_left n urls s"
proof (induction sched arbitrary: s)
  case Nil
  then show ?case by simp
next
  case (Cons a sched)
  then obtain s1 where 1: "step n urls a s = Some s1" and 2: "run_from n urls s1 sched = Some s'"
    by (auto split: option.splits)
  have "steps_left n urls s' + length sched \<le> steps_left n urls s1"
    using Cons.IH 2 by simp
  moreover have "steps_left n urls s1 < steps_left n urls s"
    using 1 by (rule steps_left_step)
  ultimately show ?case by simp
qed

lemma steps_left_initial: "steps_left n urls initial = 4 * nat n + 3 * length urls + 10"
  by (simp add: steps_left_def initial_def)

subsection \<open>Some move is enabled until \<^verbatim>\<open>main\<close> has the results\<close>

lemma find_worker_Some:
  "find (\<lambda>i. ws ! i \<noteq> WDone) [0..<length ws] = Some i \<Longrightarrow> i < length ws \<and> ws ! i \<noteq> WDone"
  by (auto simp: find_Some_iff)

lemma find_worker_None:
  "find (\<lambda>i. ws ! i \<noteq> WDone) [0..<length ws] = None \<Longrightarrow> \<forall>w \<in> set ws. w = WDone"
  by (auto simp: find_None_iff in_set_conv_nth)

lemma pick_waiting:
  assumes inv: "ctrl_inv n s" and m: "mainG s = MWait"
  shows "step n urls (pick world s) s \<noteq> None"
proof -
  have np: "\<not> panicked s" using inv by (rule ci_panic)
  have fi: "feeder s \<noteq> FIdle" using ci_feeder [OF inv] m by simp
  have ci: "collector s \<noteq> CIdle" using ci_collector [OF inv] m by simp
  have cd: "collector s \<noteq> CDone" using ci_done [OF inv] m by simp
  have ki: "coordinator s \<noteq> KIdle" using ci_coordinator [OF inv] m by simp
  show ?thesis
  proof (cases "find (\<lambda>i. workers s ! i \<noteq> WDone) [0..<length (workers s)]")
    case None
    then have all: "\<forall>w \<in> set (workers s). w = WDone" by (rule find_worker_None)
    then have "live (workers s) = 0" by (simp add: live_zero)
    then have wg0: "wg s = 0" using ci_wg [OF inv] m by simp
    show ?thesis
    proof (cases "coordinator s")
      case KIdle
      then show ?thesis using ki by simp
    next
      case KWait
      then show ?thesis using None m np wg0 by (simp add: pick_def step_def)
    next
      case KClose
      then show ?thesis using None m np by (simp add: pick_def step_def)
    next
      case KDone
      then have closed: "resultChannel_closed s" using ci_result [OF inv] by simp
      show ?thesis
      proof (cases "collector s")
        case CIdle
        then show ?thesis using ci by simp
      next
        case (CRecv rs)
        then show ?thesis using None m np KDone closed by (simp add: pick_def step_def)
      next
        case (CSend rs)
        then show ?thesis using None m np KDone by (simp add: pick_def step_def)
      next
        case CDone
        then show ?thesis using cd by simp
      qed
    qed
  next
    case (Some i)
    then have i: "i < length (workers s)" and nd: "workers s ! i \<noteq> WDone"
      using find_worker_Some by blast+
    then have "\<not> (\<forall>w \<in> set (workers s). w = WDone)" by (rule not_all_done)
    then have opn: "\<not> resultChannel_closed s"
      using closed_all_done(1) [OF inv] by blast
    show ?thesis
    proof (cases "workers s ! i")
      case WRecv
      show ?thesis
      proof (cases "feeder s")
        case FIdle
        then show ?thesis using fi by simp
      next
        case (FSend us)
        then have "\<not> urlChannel_closed s" using ci_url [OF inv] by simp
        then show ?thesis using Some m np WRecv FSend i
          by (cases us) (simp_all add: pick_def step_def worker_at_def)
      next
        case FDone
        then have "urlChannel_closed s" using ci_url [OF inv] by simp
        then show ?thesis using Some m np WRecv FDone i
          by (simp add: pick_def step_def worker_at_def)
      qed
    next
      case (WWork url)
      then show ?thesis using Some m np i
        by (cases "world i url") (simp add: pick_def step_def worker_at_def)
    next
      case (WSend r)
      have "\<not> collecting_over (collector s)" using ci_over [OF inv] opn by blast
      then obtain rs where "collector s = CRecv rs"
        using ci by (cases "collector s") simp_all
      then show ?thesis using Some m np i WSend opn
        by (simp add: pick_def step_def worker_at_def)
    next
      case WDefer
      then show ?thesis using Some m np i by (simp add: pick_def step_def worker_at_def)
    next
      case WDone
      then show ?thesis using nd by simp
    qed
  qed
qed

lemma pick_enabled:
  assumes inv: "ctrl_inv n s" and m: "stage (mainG s) \<noteq> 6"
  shows "step n urls (pick world s) s \<noteq> None"
proof (cases "mainG s")
  case MWait
  with inv show ?thesis by (rule pick_waiting)
next
  case (MGot rs)
  then show ?thesis using m by simp
qed (use ci_panic [OF inv] in \<open>simp_all add: pick_def step_def\<close>)

subsection \<open>The events of a run\<close>

lemma emitted_append: "emitted (xs @ ys) = emitted xs @ emitted ys"
  by (induction xs rule: emitted.induct) simp_all

lemma arrived_append: "arrived (xs @ ys) = arrived xs @ arrived ys"
  by (induction xs rule: arrived.induct) simp_all

lemma tasks_to_append: "tasks_to i (xs @ ys) = tasks_to i xs @ tasks_to i ys"
  by (induction i xs rule: tasks_to.induct) simp_all

lemma results_by_append: "results_by i (xs @ ys) = results_by i xs @ results_by i ys"
  by (induction i xs rule: results_by.induct) simp_all

text \<open>The feeder emits the URLs in the order of the slice.\<close>

lemma emitted_step:
  assumes "ctrl_inv n s" and "step n urls a s = Some s'"
  shows "pending urls (feeder s) = emitted (observe s a) @ pending urls (feeder s')"
  using assms(2)
proof (cases rule: step_cases)
  case GoFeeder
  then show ?thesis using ci_feeder [OF assms(1)] by simp
qed (simp_all add: panic_def wg_Add_def worker_at_def)

lemma emitted_run_from:
  "ctrl_inv n s \<Longrightarrow> run_from n urls s sched = Some s' \<Longrightarrow>
   pending urls (feeder s) = emitted (events_from n urls s sched) @ pending urls (feeder s')"
proof (induction sched arbitrary: s)
  case Nil
  then show ?case by simp
next
  case (Cons a sched)
  then obtain s1 where 1: "step n urls a s = Some s1" and 2: "run_from n urls s1 sched = Some s'"
    by (auto split: option.splits)
  have "ctrl_inv n s1" using Cons.prems(1) 1 by (rule ctrl_inv_step)
  then have "pending urls (feeder s1) =
      emitted (events_from n urls s1 sched) @ pending urls (feeder s')"
    using 2 by (rule Cons.IH)
  then show ?case using emitted_step [OF Cons.prems(1) 1] 1 by (simp add: emitted_append)
qed

text \<open>The collector appends the results in the order of their arrival.\<close>

lemma arrived_step:
  assumes "ctrl_inv n s" and "step n urls a s = Some s'"
  shows "collected s' = collected s @ arrived (observe s a)"
  using assms(2)
proof (cases rule: step_cases)
  case GoCollector
  then show ?thesis using ci_collector [OF assms(1)] by (simp add: collected_def)
next
  case (Publish i result results)
  then have "stage (mainG s) \<noteq> 6" using ci_done [OF assms(1)] by simp
  then show ?thesis using Publish
    by (cases "mainG s") (simp_all add: collected_def worker_at_def)
next
  case (CollectorExit results)
  then have "stage (mainG s) \<noteq> 6" using ci_done [OF assms(1)] by simp
  then show ?thesis using CollectorExit by (cases "mainG s") (simp_all add: collected_def)
qed (simp_all add: collected_def panic_def wg_Add_def worker_at_def)

lemma arrived_run_from:
  "ctrl_inv n s \<Longrightarrow> run_from n urls s sched = Some s' \<Longrightarrow>
   collected s' = collected s @ arrived (events_from n urls s sched)"
proof (induction sched arbitrary: s)
  case Nil
  then show ?case by simp
next
  case (Cons a sched)
  then obtain s1 where 1: "step n urls a s = Some s1" and 2: "run_from n urls s1 sched = Some s'"
    by (auto split: option.splits)
  have "ctrl_inv n s1" using Cons.prems(1) 1 by (rule ctrl_inv_step)
  then have "collected s' = collected s1 @ arrived (events_from n urls s1 sched)"
    using 2 by (rule Cons.IH)
  then show ?case using arrived_step [OF Cons.prems(1) 1] 1 by (simp add: arrived_append)
qed

subsection \<open>The order within one worker, and the moves that happen once\<close>

text \<open>A worker publishes its results in the order in which it took the tasks.\<close>

lemma order_step:
  assumes "step n urls a s = Some s'"
  shows "held_at s i @ tasks_to i (observe s a) =
         map URL (results_by i (observe s a)) @ held_at s' i"
  using assms
  by (cases rule: step_cases)
    (auto simp: held_at_def worker_at_def panic_def wg_Add_def nth_append nth_list_update
      URL_scrapeURL)

lemma order_run_from:
  "run_from n urls s sched = Some s' \<Longrightarrow>
   held_at s i @ tasks_to i (events_from n urls s sched) =
   map URL (results_by i (events_from n urls s sched)) @ held_at s' i"
proof (induction sched arbitrary: s)
  case Nil
  then show ?case by simp
next
  case (Cons a sched)
  then obtain s1 where 1: "step n urls a s = Some s1" and 2: "run_from n urls s1 sched = Some s'"
    by (auto split: option.splits)
  have "held_at s i @ tasks_to i (observe s a) @ tasks_to i (events_from n urls s1 sched) =
      map URL (results_by i (observe s a)) @ held_at s1 i @
      tasks_to i (events_from n urls s1 sched)"
    using order_step [OF 1, of i] by simp
  also have "\<dots> = map URL (results_by i (observe s a)) @
      map URL (results_by i (events_from n urls s1 sched)) @ held_at s' i"
    using Cons.IH [OF 2] by simp
  finally show ?case using 1 by (simp add: tasks_to_append results_by_append)
qed

text \<open>Counting the moves that happen at most once.\<close>

lemma Done_step:
  assumes "step n urls a s = Some s'"
  shows "returned s i + count_list [a] (Done i) = returned s' i"
  using assms
  by (cases rule: step_cases)
    (auto simp: returned_def worker_at_def panic_def wg_Add_def nth_append nth_list_update)

lemma Done_run_from:
  "run_from n urls s sched = Some s' \<Longrightarrow>
   returned s i + count_list sched (Done i) = returned s' i"
proof (induction sched arbitrary: s)
  case Nil
  then show ?case by simp
next
  case (Cons a sched)
  then obtain s1 where 1: "step n urls a s = Some s1" and 2: "run_from n urls s1 sched = Some s'"
    by (auto split: option.splits)
  show ?case using Done_step [OF 1, of i] Cons.IH [OF 2] by (simp split: if_splits)
qed

lemma Deliver_step:
  assumes "step n urls a s = Some s'"
  shows "delivered s + count_list [a] Deliver = delivered s'"
  using assms by (cases rule: step_cases) (simp_all add: delivered_def panic_def wg_Add_def)

lemma Deliver_run_from:
  "run_from n urls s sched = Some s' \<Longrightarrow>
   delivered s + count_list sched Deliver = delivered s'"
proof (induction sched arbitrary: s)
  case Nil
  then show ?case by simp
next
  case (Cons a sched)
  then obtain s1 where 1: "step n urls a s = Some s1" and 2: "run_from n urls s1 sched = Some s'"
    by (auto split: option.splits)
  show ?case using Deliver_step [OF 1] Cons.IH [OF 2] by (simp split: if_splits)
qed

lemma Close_step:
  assumes "ctrl_inv n s" and "step n urls a s = Some s'"
  shows "closes s + count_list [a] CloseResults = closes s'"
  using assms(2)
proof (cases rule: step_cases)
  case GoCoordinator
  then show ?thesis using ci_coordinator [OF assms(1)] by (simp add: closes_def)
next
  case CloseResultsPanic
  then show ?thesis using ci_result [OF assms(1)] by simp
qed (simp_all add: closes_def panic_def wg_Add_def)

lemma Close_run_from:
  "ctrl_inv n s \<Longrightarrow> run_from n urls s sched = Some s' \<Longrightarrow>
   closes s + count_list sched CloseResults = closes s'"
proof (induction sched arbitrary: s)
  case Nil
  then show ?case by simp
next
  case (Cons a sched)
  then obtain s1 where 1: "step n urls a s = Some s1" and 2: "run_from n urls s1 sched = Some s'"
    by (auto split: option.splits)
  have "ctrl_inv n s1" using Cons.prems(1) 1 by (rule ctrl_inv_step)
  then show ?case using Close_step [OF Cons.prems(1) 1] Cons.IH [OF _ 2] by (simp split: if_splits)
qed

subsection \<open>Results and their errors; a pool without workers\<close>

text \<open>A property of every fetched result is a property of every published result.\<close>

lemma sending_update:
  "WSend r \<in> set (ws[j := w]) \<Longrightarrow> WSend r = w \<or> WSend r \<in> set ws"
  using set_update_subset_insert [of ws j w] by blast

lemma results_step:
  assumes inv: "ctrl_inv n s" and st: "step n urls a s = Some s'"
    and c: "\<forall>r \<in> set (collected s). P r"
    and w: "\<forall>r. WSend r \<in> set (workers s) \<longrightarrow> P r"
    and f: "\<forall>g \<in> set (fetches [a]). \<forall>url t0 t1. P (scrapeURL url t0 g t1)"
  shows "(\<forall>r \<in> set (collected s'). P r) \<and> (\<forall>r. WSend r \<in> set (workers s') \<longrightarrow> P r)"
proof
  have "collected s' = collected s @ arrived (observe s a)"
    using inv st by (rule arrived_step)
  moreover have "\<forall>r \<in> set (arrived (observe s a)). P r"
    using st w by (cases rule: step_cases) (auto simp: worker_at_def dest: nth_mem)
  ultimately show "\<forall>r \<in> set (collected s'). P r" using c by auto
  show "\<forall>r. WSend r \<in> set (workers s') \<longrightarrow> P r"
    using st w f
    by (cases rule: step_cases) (auto simp: panic_def wg_Add_def dest!: sending_update)
qed

lemma results_run_from:
  "ctrl_inv n s \<Longrightarrow> run_from n urls s sched = Some s' \<Longrightarrow>
   \<forall>r \<in> set (collected s). P r \<Longrightarrow> \<forall>r. WSend r \<in> set (workers s) \<longrightarrow> P r \<Longrightarrow>
   \<forall>g \<in> set (fetches sched). \<forall>url t0 t1. P (scrapeURL url t0 g t1) \<Longrightarrow>
   (\<forall>r \<in> set (collected s'). P r) \<and> (\<forall>r. WSend r \<in> set (workers s') \<longrightarrow> P r)"
proof (induction sched arbitrary: s)
  case Nil
  then show ?case by simp
next
  case (Cons a sched)
  then obtain s1 where 1: "step n urls a s = Some s1" and 2: "run_from n urls s1 sched = Some s'"
    by (auto split: option.splits)
  have i1: "ctrl_inv n s1" using Cons.prems(1) 1 by (rule ctrl_inv_step)
  have fa: "\<forall>g \<in> set (fetches [a]). \<forall>url t0 t1. P (scrapeURL url t0 g t1)"
    and fs: "\<forall>g \<in> set (fetches sched). \<forall>url t0 t1. P (scrapeURL url t0 g t1)"
    using Cons.prems(5) by (cases a; simp)+
  have "(\<forall>r \<in> set (collected s1). P r) \<and> (\<forall>r. WSend r \<in> set (workers s1) \<longrightarrow> P r)"
    using Cons.prems(1) 1 Cons.prems(3,4) fa by (rule results_step)
  then show ?case using Cons.IH [OF i1 2 _ _ fs] by blast
qed

text \<open>Without a worker nothing is handed over.\<close>

lemma no_worker_spawned:
  assumes "ctrl_inv n s" and "n \<le> 0"
  shows "workers s = []"
proof -
  have "int (length (workers s)) \<le> 0"
    using ci_spawned [OF assms(1)] assms(2) by (cases "mainG s") simp_all
  then show ?thesis by simp
qed

lemma no_worker_step:
  assumes "step n urls a s = Some s'" and "workers s = []"
  shows "observe s a = []"
  using assms by (cases rule: step_cases) simp_all

lemma no_worker_run_from:
  "ctrl_inv n s \<Longrightarrow> n \<le> 0 \<Longrightarrow> run_from n urls s sched = Some s' \<Longrightarrow>
   events_from n urls s sched = []"
proof (induction sched arbitrary: s)
  case Nil
  then show ?case by simp
next
  case (Cons a sched)
  then obtain s1 where 1: "step n urls a s = Some s1" and 2: "run_from n urls s1 sched = Some s'"
    by (auto split: option.splits)
  have i1: "ctrl_inv n s1" using Cons.prems(1) 1 by (rule ctrl_inv_step)
  have "observe s a = []"
    using 1 no_worker_spawned [OF Cons.prems(1,2)] by (rule no_worker_step)
  then show ?case using 1 Cons.IH [OF i1 Cons.prems(2) 2] by simp
qed

subsection \<open>Which worker an event names\<close>

text \<open>Every event names one of the workers that \<^verbatim>\<open>main\<close> starts.\<close>

lemma spawned_le:
  assumes "ctrl_inv n s"
  shows "int (length (workers s)) \<le> max n 0"
  using ci_spawned [OF assms] by (cases "mainG s") simp_all

lemma ids_step:
  assumes "ctrl_inv n s" and "step n urls a s = Some s'"
  shows "\<forall>ev \<in> set (observe s a). worker_of ev < nat n"
  using assms(2) spawned_le [OF assms(1)]
  by (cases rule: step_cases) (auto simp: worker_at_def)

lemma ids_run_from:
  "ctrl_inv n s \<Longrightarrow> run_from n urls s sched = Some s' \<Longrightarrow>
   \<forall>ev \<in> set (events_from n urls s sched). worker_of ev < nat n"
proof (induction sched arbitrary: s)
  case Nil
  then show ?case by simp
next
  case (Cons a sched)
  then obtain s1 where 1: "step n urls a s = Some s1" and 2: "run_from n urls s1 sched = Some s'"
    by (auto split: option.splits)
  have i1: "ctrl_inv n s1" using Cons.prems(1) 1 by (rule ctrl_inv_step)
  show ?case using 1 ids_step [OF Cons.prems(1) 1] Cons.IH [OF i1 2] by auto
qed

lemma emitted_split:
  "\<forall>ev \<in> set evs. worker_of ev < k \<Longrightarrow>
   mset (emitted evs) = (\<Sum>i<k. mset (tasks_to i evs))"
proof (induction evs rule: emitted.induct)
  case 1
  then show ?case by simp
next
  case (2 j url evs)
  then have j: "j < k" and ih: "mset (emitted evs) = (\<Sum>i<k. mset (tasks_to i evs))"
    by simp_all
  have "(\<Sum>i<k. mset (tasks_to i (Task j url # evs))) =
      (\<Sum>i<k. (if i = j then {#url#} else {#}) + mset (tasks_to i evs))"
    by (intro sum.cong) auto
  also have "\<dots> = (\<Sum>i<k. if i = j then {#url#} else {#}) + (\<Sum>i<k. mset (tasks_to i evs))"
    by (rule sum.distrib)
  also have "(\<Sum>i<k. if i = j then {#url#} else {#}) = {#url#}"
    using j by (simp add: sum.delta)
  finally show ?case using ih by simp
next
  case (3 j r evs)
  then show ?case by simp
qed

lemma tasks_to_only:
  "\<forall>ev \<in> set evs. worker_of ev = i \<Longrightarrow> tasks_to i evs = emitted evs"
  by (induction i evs rule: tasks_to.induct) auto

lemma held_single:
  "length (workers s) \<le> 1 \<Longrightarrow> concat (map held (workers s)) = held_at s 0"
  by (cases "workers s") (auto simp: held_at_def worker_at_def)

subsection \<open>After the result channel is closed\<close>

lemma events_from_append:
  "events_from n urls s (xs @ ys) =
     events_from n urls s xs @
     (case run_from n urls s xs of None \<Rightarrow> [] | Some t \<Rightarrow> events_from n urls t ys)"
  by (induction xs arbitrary: s) (auto split: option.splits)

text \<open>Once the result channel is closed it stays closed, and no result arrives.\<close>

lemma closed_step:
  assumes "step n urls a s = Some s'" and "resultChannel_closed s"
  shows "resultChannel_closed s' \<and> arrived (observe s a) = []"
  using assms by (cases rule: step_cases) (simp_all add: panic_def wg_Add_def worker_at_def)

lemma closed_run_from:
  "run_from n urls s sched = Some s' \<Longrightarrow> resultChannel_closed s \<Longrightarrow>
   resultChannel_closed s' \<and> arrived (events_from n urls s sched) = []"
proof (induction sched arbitrary: s)
  case Nil
  then show ?case by simp
next
  case (Cons a sched)
  then obtain s1 where 1: "step n urls a s = Some s1" and 2: "run_from n urls s1 sched = Some s'"
    by (auto split: option.splits)
  show ?case
    using closed_step [OF 1 Cons.prems(2)] Cons.IH [OF 2] 1 by (simp add: arrived_append)
qed

subsection \<open>A worker between two tasks\<close>

text \<open>A worker starts to leave only at the head of its loop, when \<^verbatim>\<open>urlChannel\<close> is closed.\<close>

lemma leaving_step:
  assumes "step n urls a s = Some s'" and "j < length (workers s)"
    and "\<not> leaving (workers s ! j)" and "leaving (workers s' ! j)"
  shows "a = LoopExit j \<and> workers s ! j = WRecv \<and> urlChannel_closed s"
  using assms
  by (cases rule: step_cases)
    (auto simp: panic_def wg_Add_def nth_append nth_list_update split: if_splits)

text \<open>While a worker holds a task or a result, the collector is receiving.\<close>

lemma collector_receiving:
  assumes ctrl: "ctrl_inv n s" and i: "i < length (workers s)" and w: "workers s ! i \<noteq> WDone"
  shows "\<not> resultChannel_closed s" and "collector s = CRecv (gathered (collector s))"
    and "stage (mainG s) \<noteq> 6"
proof -
  have "\<not> (\<forall>w \<in> set (workers s). w = WDone)" using i w by (rule not_all_done)
  then show opn: "\<not> resultChannel_closed s" using closed_all_done(1) [OF ctrl] by blast
  then have over: "\<not> collecting_over (collector s)" using ci_over [OF ctrl] by blast
  have "\<not> stage (mainG s) \<le> 1"
    using ci_spawned [OF ctrl] i by (cases "mainG s") simp_all
  then have "collector s \<noteq> CIdle" using ci_collector [OF ctrl] by simp
  then show "collector s = CRecv (gathered (collector s))"
    using over by (cases "collector s") simp_all
  then show "stage (mainG s) \<noteq> 6" using ci_done [OF ctrl] by auto
qed

subsection \<open>Further facts about the scheduler and the events\<close>

lemma pick_fetches:
  "\<forall>g \<in> set (fetches [pick world s]). \<exists>i url. g = fst (snd (world i url))"
proof (cases "\<exists>i t0 got t1. pick world s = Scrape i t0 got t1")
  case True
  then obtain i t0 got t1 where p: "pick world s = Scrape i t0 got t1" by blast
  then have "\<exists>i url. (t0, got, t1) = world i url"
    unfolding pick_def
    by (auto split: main_pc.splits option.splits worker_pc.splits feeder_pc.splits
        list.splits coordinator_pc.splits collector_pc.splits prod.splits intro: sym)
  then obtain j url where "(t0, got, t1) = world j url" by blast
  then have "got = fst (snd (world j url))" by (metis fst_conv snd_conv)
  then show ?thesis using p by auto
next
  case False
  then show ?thesis by (cases "pick world s") simp_all
qed

lemma results_by_only:
  "\<forall>ev \<in> set evs. worker_of ev = i \<Longrightarrow> results_by i evs = arrived evs"
  by (induction i evs rule: results_by.induct) auto

subsection \<open>The counters stay in their ranges\<close>

text \<open>
  With fewer than \<open>2\<^sup>3\<^sup>1\<close> workers every reachable state has its counters in range: the
  model never takes a step that the program, with its 32-bit and 64-bit counters, would
  take differently.
\<close>

lemma live_le_length: "live ws \<le> length ws"
  by (simp add: live_def)

lemma counters_in_range_inv:
  assumes ctrl: "ctrl_inv n s" and n: "n < 2 ^ 31"
  shows "counters_in_range n s"
proof -
  have wg: "wg s = int (live (workers s)) + (if stage (mainG s) = 3 then 1 else 0)"
    using ctrl by (rule ci_wg)
  have l: "int (live (workers s)) \<le> int (length (workers s))"
    using live_le_length [of "workers s"] by simp
  have sp: "spawned n (mainG s) (length (workers s))" using ctrl by (rule ci_spawned)
  have le: "int (length (workers s)) \<le> max n 0" using ctrl by (rule spawned_le)
  have big: "(2::int) ^ 31 < 2 ^ 63" by simp
  show ?thesis
  proof (cases "mainG s")
    case (MLoop i)
    then show ?thesis using wg l sp n big unfolding counters_in_range_def by auto
  next
    case (MGoWorker i)
    then show ?thesis using wg l sp n big unfolding counters_in_range_def by auto
  qed (use wg l le n in \<open>auto simp: counters_in_range_def\<close>)
qed

lemma counters_in_range_run:
  "n < 2 ^ 31 \<Longrightarrow> run n urls sched = Some s \<Longrightarrow> counters_in_range n s"
  using counters_in_range_inv pool_inv_run unfolding pool_inv_def by blast

subsection \<open>The scenario, evaluated\<close>

lemmas eval_defs = run_def events_def initial_def step_def worker_at_def set_worker_def
  wg_Add_def panic_def scrapeURL_def time_Since_def maxDuration_def minDuration_def

lemma scenario_run: "run 2 scenario_urls scenario_sched = Some scenario_final"
  by (simp add: scenario_urls_def scenario_sched_def scenario_final_def scenario_results_def
      eval_defs)

lemma scenario_events:
  "events 2 scenario_urls scenario_sched =
     [Task 0 ''A'', Task 1 ''B'', Result 1 (scenario_results ! 0), Task 1 ''C'',
      Result 1 (scenario_results ! 1), Result 0 (scenario_results ! 2)]"
  by (simp add: scenario_urls_def scenario_sched_def scenario_final_def scenario_results_def
      eval_defs)

lemma scenario_prefix:
  "run 2 scenario_urls (take 10 scenario_sched) =
     Some \<lparr>mainG = MWait, feeder = FSend [''C''], workers = [WWork ''A'', WWork ''B''],
           collector = CRecv [], coordinator = KWait, wg = 2, urlChannel_closed = False,
           resultChannel_closed = False, panicked = False\<rparr>"
  by (simp add: scenario_urls_def scenario_sched_def eval_defs)

lemma scenario_started:
  "run 2 scenario_urls (take 8 scenario_sched) =
     Some \<lparr>mainG = MWait, feeder = FSend [''A'', ''B'', ''C''], workers = [WRecv, WRecv],
           collector = CRecv [], coordinator = KWait, wg = 2, urlChannel_closed = False,
           resultChannel_closed = False, panicked = False\<rparr>"
  by (simp add: scenario_urls_def scenario_sched_def eval_defs)

lemma idle_run: "run 0 [''A''] idle_sched = Some idle_final"
  by (simp add: idle_sched_def idle_final_def eval_defs)

lemma single_run: "run 1 [''A'', ''B''] (single_sched got) = Some (single_final got)"
  by (simp add: single_sched_def single_final_def run_def initial_def step_def worker_at_def
      set_worker_def wg_Add_def panic_def)

section \<open>The pipeline: what every run does\<close>

text \<open>
  C1: for every worker count \<open>n \<ge> 1\<close> and every list of tasks, in every run: at any
  moment every task is in exactly one place (not yet sent, held by one worker, or
  collected); the hand-offs to the workers are the tasks of the list, each once and in
  order, and every hand-off names one of the \<open>n\<close> workers; and the collection that
  \<^verbatim>\<open>main\<close> receives has exactly \<open>M\<close> results, one for every submitted task, none twice and
  none missing. The collection is received: for \<open>n\<close> below \<open>2\<^sup>3\<^sup>1\<close>, where the counters of
  the program stay in their ranges, the run has at most \<open>4 n + 3 M + 10\<close> moves and some
  move is enabled until \<^verbatim>\<open>main\<close> has the collection.
\<close>

theorem every_task_collected_once:
  assumes n: "1 \<le> n" and run: "run n urls sched = Some s"
  shows "mset (map URL (collected s)) + mset (concat (map held (workers s))) +
           mset (pending urls (feeder s)) = mset urls \<and>
         emitted (events n urls sched) @ pending urls (feeder s) = urls \<and>
         mset (emitted (events n urls sched)) = (\<Sum>i<nat n. mset (tasks_to i (events n urls sched))) \<and>
         (n < 2 ^ 31 \<longrightarrow>
            counters_in_range n s \<and>
            length sched \<le> 4 * nat n + 3 * length urls + 10 \<and>
            (stage (mainG s) \<noteq> 6 \<longrightarrow> step n urls (pick world s) s \<noteq> None)) \<and>
         (\<forall>results. mainG s = MGot results \<longrightarrow>
            length results = length urls \<and> mset (map URL results) = mset urls \<and>
            results = arrived (events n urls sched) \<and>
            emitted (events n urls sched) = urls \<and>
            (\<Sum>i<nat n. mset (tasks_to i (events n urls sched))) = mset urls)"
proof -
  have inv: "pool_inv n urls s" using run by (rule pool_inv_run)
  then have ctrl: "ctrl_inv n s" and cons: "cons_inv urls s" by (simp_all add: pool_inv_def)
  have ctrl0: "ctrl_inv n initial" using pool_inv_initial [of n urls] by (simp add: pool_inv_def)
  have run': "run_from n urls initial sched = Some s" using run by (simp add: run_def)
  have a: "mset (map URL (collected s)) + mset (concat (map held (workers s))) +
      mset (pending urls (feeder s)) = mset urls"
    using cons unfolding cons_inv_def by blast
  have b: "emitted (events n urls sched) @ pending urls (feeder s) = urls"
    using emitted_run_from [OF ctrl0 run'] by (simp add: events_def initial_def)
  have c: "mset (emitted (events n urls sched)) = (\<Sum>i<nat n. mset (tasks_to i (events n urls sched)))"
    using ids_run_from [OF ctrl0 run'] unfolding events_def by (rule emitted_split)
  have d: "length sched \<le> 4 * nat n + 3 * length urls + 10"
    using steps_left_run_from [OF run'] by (simp add: steps_left_initial)
  have e: "stage (mainG s) \<noteq> 6 \<longrightarrow> step n urls (pick world s) s \<noteq> None"
    using pick_enabled [OF ctrl] by blast
  have f: "length results = length urls \<and> mset (map URL results) = mset urls \<and>
      results = arrived (events n urls sched) \<and> emitted (events n urls sched) = urls \<and>
      (\<Sum>i<nat n. mset (tasks_to i (events n urls sched))) = mset urls"
    if m: "mainG s = MGot results" for results
  proof -
    have closed: "resultChannel_closed s" using ctrl m by (rule delivered_closed)
    have col: "collected s = results" using m by (simp add: collected_def)
    have 1: "mset (map URL results) = mset urls"
      using closed_collected [OF inv closed n] col by simp
    then have 2: "length results = length urls"
      by (metis length_map size_mset)
    have 3: "results = arrived (events n urls sched)"
      using arrived_run_from [OF ctrl0 run'] col
      by (simp add: events_def collected_def initial_def)
    have "pending urls (feeder s) = []"
      using closed_feeder_done [OF ctrl closed n] by simp
    then have 4: "emitted (events n urls sched) = urls" using b by simp
    show ?thesis using 1 2 3 4 c by simp
  qed
  have g: "counters_in_range n s" if "n < 2 ^ 31"
    using ctrl that by (rule counters_in_range_inv)
  show ?thesis using a b c d e f g by blast
qed

theorem every_task_collected_once_witness:
  "(1::int) \<le> 2 \<and> (2::int) < 2 ^ 31 \<and>
   run 2 scenario_urls scenario_sched = Some scenario_final \<and>
   mainG scenario_final = MGot scenario_results \<and>
   length scenario_results = length scenario_urls \<and>
   mset (map URL scenario_results) = mset scenario_urls \<and>
   emitted (events 2 scenario_urls scenario_sched) = scenario_urls \<and>
   counters_in_range 2 scenario_final \<and>
   length scenario_sched \<le> 4 * nat 2 + 3 * length scenario_urls + 10"
  using every_task_collected_once [of 2 scenario_urls scenario_sched scenario_final]
    scenario_run
  by (simp add: scenario_final_def)

text \<open>
  C2: in every run with \<open>n \<ge> 1\<close> workers the coordinator closes the result channel at
  most once, and only after all \<open>n\<close> workers have returned: whenever the channel is
  closed, \<open>n\<close> workers have been started, all of them have returned and the
  \<^verbatim>\<open>WaitGroup\<close> counter is zero; and the moves before the close contain the \<^verbatim>\<open>wg.Done()\<close>
  of each of the \<open>n\<close> workers exactly once and no other \<^verbatim>\<open>wg.Done()\<close>, in any order. No
  worker signals twice.
\<close>

theorem close_only_after_all_workers:
  assumes n: "1 \<le> n" and run: "run n urls sched = Some s"
  shows "(\<forall>i. count_list sched (Done i) \<le> 1) \<and>
         count_list sched CloseResults \<le> 1 \<and>
         (resultChannel_closed s \<longleftrightarrow> count_list sched CloseResults = 1) \<and>
         (resultChannel_closed s \<longrightarrow>
            int (length (workers s)) = n \<and> (\<forall>w \<in> set (workers s). w = WDone) \<and> wg s = 0 \<and>
            (\<forall>i. count_list sched (Done i) = (if i < nat n then 1 else 0))) \<and>
         (\<forall>before after. sched = before @ CloseResults # after \<longrightarrow>
            (\<forall>i. count_list before (Done i) = (if i < nat n then 1 else 0)) \<and>
            (\<forall>i. count_list after (Done i) = 0))"
proof -
  have ctrl0: "ctrl_inv n initial" using pool_inv_initial [of n urls] by (simp add: pool_inv_def)
  have r0: "returned initial i = 0" for i by (simp add: returned_def worker_at_def initial_def)
  have c0: "closes initial = 0" by (simp add: closes_def initial_def)
  have counts: "count_list xs (Done i) = returned t i"
    and closing: "count_list xs CloseResults = closes t"
    and inv: "ctrl_inv n t"
    if "run_from n urls initial xs = Some t" for xs t i
    using that Done_run_from [of n urls initial xs t i] Close_run_from [OF ctrl0, of urls xs t]
      pool_inv_run [of n urls xs t]
    by (simp_all add: r0 c0 run_def pool_inv_def)
  have all: "int (length (workers t)) = n \<and> (\<forall>w \<in> set (workers t). w = WDone) \<and>
      (\<forall>i. returned t i = (if i < nat n then 1 else 0))"
    if t: "ctrl_inv n t" and k: "coordinator t = KClose \<or> coordinator t = KDone" for t
  proof -
    have d: "\<forall>w \<in> set (workers t). w = WDone" using ci_closing [OF t] k by blast
    have "\<not> stage (mainG t) \<le> 4" using ci_coordinator [OF t] k by auto
    then have "int (length (workers t)) = max n 0"
      using ci_spawned [OF t] by (cases "mainG t") simp_all
    then have l: "int (length (workers t)) = n" using n by simp
    have "returned t i = (if i < nat n then 1 else 0)" for i
      using d l by (auto simp: returned_def worker_at_def)
    then show ?thesis using d l by blast
  qed
  have run': "run_from n urls initial sched = Some s" using run by (simp add: run_def)
  have ctrl: "ctrl_inv n s" using run' by (rule inv)
  have 1: "\<forall>i. count_list sched (Done i) \<le> 1"
    using counts [OF run'] by (simp add: returned_def)
  have 2: "count_list sched CloseResults \<le> 1"
    using closing [OF run'] by (simp add: closes_def)
  have 3: "resultChannel_closed s \<longleftrightarrow> count_list sched CloseResults = 1"
    using closing [OF run'] ci_result [OF ctrl] by (simp add: closes_def)
  have 4: "int (length (workers s)) = n \<and> (\<forall>w \<in> set (workers s). w = WDone) \<and> wg s = 0 \<and>
      (\<forall>i. count_list sched (Done i) = (if i < nat n then 1 else 0))"
    if closed: "resultChannel_closed s"
  proof -
    have "coordinator s = KDone" using ci_result [OF ctrl] closed by simp
    then show ?thesis
      using all [OF ctrl] counts [OF run'] closed_all_done(3) [OF ctrl closed] by simp
  qed
  have 5: "(\<forall>i. count_list before (Done i) = (if i < nat n then 1 else 0)) \<and>
      (\<forall>i. count_list after (Done i) = 0)"
    if split: "sched = before @ CloseResults # after" for before after
  proof -
    obtain t where t: "run_from n urls initial before = Some t"
      and st: "run_from n urls t (CloseResults # after) = Some s"
      using run' unfolding split run_from_append by (auto split: option.splits)
    obtain t' where "step n urls CloseResults t = Some t'"
      using st by (auto split: option.splits)
    then have "coordinator t = KClose" by (cases rule: step_cases) simp_all
    then have b: "\<forall>i. count_list before (Done i) = (if i < nat n then 1 else 0)"
      using all [OF inv [OF t]] counts [OF t] by simp
    have le: "count_list before (Done i) + count_list after (Done i) \<le> 1" for i
      using 1 unfolding split by simp
    have out: "count_list sched (Done i) = 0" if "\<not> i < nat n" for i
    proof -
      have "int (length (workers s)) \<le> max n 0" using ctrl by (rule spawned_le)
      then have "\<not> i < length (workers s)" using that n by linarith
      then have "returned s i = 0" by (simp add: returned_def worker_at_def)
      then show ?thesis using counts [OF run'] by simp
    qed
    have "count_list after (Done i) = 0" for i
    proof (cases "i < nat n")
      case True
      then have "count_list before (Done i) = 1" using b by simp
      then show ?thesis using le [of i] by simp
    next
      case False
      then show ?thesis using out [of i] unfolding split by simp
    qed
    then show ?thesis using b by blast
  qed
  show ?thesis using 1 2 3 4 5 by blast
qed

theorem close_only_after_all_workers_witness:
  "(1::int) \<le> 2 \<and> run 2 scenario_urls scenario_sched = Some scenario_final \<and>
   resultChannel_closed scenario_final \<and>
   workers scenario_final = [WDone, WDone] \<and> wg scenario_final = 0 \<and>
   count_list scenario_sched (Done 0) = 1 \<and> count_list scenario_sched (Done 1) = 1 \<and>
   count_list scenario_sched (Done 2) = 0 \<and> count_list scenario_sched CloseResults = 1 \<and>
   scenario_sched = take 23 scenario_sched @ CloseResults # drop 24 scenario_sched \<and>
   count_list (take 23 scenario_sched) (Done 0) = 1 \<and>
   count_list (take 23 scenario_sched) (Done 1) = 1 \<and>
   count_list (drop 24 scenario_sched) (Done 0) = 0"
proof -
  have split: "scenario_sched = take 23 scenario_sched @ CloseResults # drop 24 scenario_sched"
    by (simp add: scenario_sched_def)
  show ?thesis
    using close_only_after_all_workers [of 2 scenario_urls scenario_sched scenario_final]
      scenario_run split
    by (simp add: scenario_final_def)
qed

text \<open>
  C3: in every run the slice of the collector is the list of the results it has received,
  in the order of their arrival, none dropped; the collector hands the slice to \<^verbatim>\<open>main\<close>
  at most once, through the channel \<^verbatim>\<open>done\<close>; the hand-over happens only after the
  result channel has been closed, and what \<^verbatim>\<open>main\<close> receives is the list of all results
  that have arrived. The hand-over does happen: for \<open>n\<close> below \<open>2\<^sup>3\<^sup>1\<close>, where the
  counters of the program stay in their ranges, the run has at most \<open>4 n + 3 M + 10\<close>
  moves and some move is enabled until \<^verbatim>\<open>main\<close> has the slice.
\<close>

theorem collector_delivers_once:
  assumes run: "run n urls sched = Some s"
  shows "collected s = arrived (events n urls sched) \<and>
         count_list sched Deliver \<le> 1 \<and>
         (count_list sched Deliver = 1 \<longleftrightarrow> (\<exists>results. mainG s = MGot results)) \<and>
         (\<forall>results. mainG s = MGot results \<longrightarrow>
            results = arrived (events n urls sched) \<and> resultChannel_closed s) \<and>
         (n < 2 ^ 31 \<longrightarrow>
            counters_in_range n s \<and>
            length sched \<le> 4 * nat n + 3 * length urls + 10 \<and>
            (stage (mainG s) \<noteq> 6 \<longrightarrow> step n urls (pick world s) s \<noteq> None)) \<and>
         (\<forall>before after. sched = before @ Deliver # after \<longrightarrow>
            count_list before CloseResults = 1 \<and> count_list before Deliver = 0 \<and>
            arrived (events n urls before) = arrived (events n urls sched))"
proof -
  have ctrl0: "ctrl_inv n initial" using pool_inv_initial [of n urls] by (simp add: pool_inv_def)
  have d0: "delivered initial = 0" by (simp add: delivered_def initial_def)
  have c0: "closes initial = 0" by (simp add: closes_def initial_def)
  have col0: "collected initial = []" by (simp add: collected_def initial_def)
  have facts: "count_list xs Deliver = delivered t" "count_list xs CloseResults = closes t"
    "ctrl_inv n t" "collected t = arrived (events n urls xs)"
    if "run_from n urls initial xs = Some t" for xs t
    using that Deliver_run_from [of n urls initial xs t] Close_run_from [OF ctrl0, of urls xs t]
      pool_inv_run [of n urls xs t] arrived_run_from [OF ctrl0, of urls xs t]
    by (simp_all add: d0 c0 col0 run_def pool_inv_def events_def)
  have run': "run_from n urls initial sched = Some s" using run by (simp add: run_def)
  note f = facts [OF run']
  have 1: "collected s = arrived (events n urls sched)" by (rule f(4))
  have 2: "count_list sched Deliver \<le> 1" using f(1) by (simp add: delivered_def)
  have 3: "count_list sched Deliver = 1 \<longleftrightarrow> (\<exists>results. mainG s = MGot results)"
    using f(1) by (cases "mainG s") (simp_all add: delivered_def)
  have 4: "results = arrived (events n urls sched) \<and> resultChannel_closed s"
    if m: "mainG s = MGot results" for results
    using delivered_closed [OF f(3) m] 1 m by (simp add: collected_def)
  have 5: "count_list before CloseResults = 1 \<and> count_list before Deliver = 0 \<and>
      arrived (events n urls before) = arrived (events n urls sched)"
    if split: "sched = before @ Deliver # after" for before after
  proof -
    obtain t where t: "run_from n urls initial before = Some t"
      and st: "run_from n urls t (Deliver # after) = Some s"
      using run' unfolding split run_from_append by (auto split: option.splits)
    obtain t' where t': "step n urls Deliver t = Some t'"
      using st by (auto split: option.splits)
    note g = facts [OF t]
    from t' obtain results where c: "collector t = CSend results" and w: "mainG t = MWait"
      by (cases rule: step_cases) simp_all
    have closed: "resultChannel_closed t" using ci_over [OF g(3)] c by simp
    then have a: "count_list before CloseResults = 1"
      using g(2) ci_result [OF g(3)] by (simp add: closes_def)
    have b: "count_list before Deliver = 0" using g(1) w by (simp add: delivered_def)
    have "arrived (events_from n urls t (Deliver # after)) = []"
      using closed_run_from [OF st closed] by blast
    then have "arrived (events n urls sched) = arrived (events n urls before)"
      unfolding split events_def events_from_append using t by (simp add: arrived_append)
    then show ?thesis using a b by simp
  qed
  have 6: "length sched \<le> 4 * nat n + 3 * length urls + 10"
    using steps_left_run_from [OF run'] by (simp add: steps_left_initial)
  have 7: "stage (mainG s) \<noteq> 6 \<longrightarrow> step n urls (pick world s) s \<noteq> None"
    using pick_enabled [OF f(3)] by blast
  have 8: "counters_in_range n s" if "n < 2 ^ 31"
    using f(3) that by (rule counters_in_range_inv)
  show ?thesis using 1 2 3 4 5 6 7 8 by blast
qed

theorem collector_delivers_once_witness:
  "run 2 scenario_urls scenario_sched = Some scenario_final \<and>
   mainG scenario_final = MGot scenario_results \<and>
   scenario_results = arrived (events 2 scenario_urls scenario_sched) \<and>
   resultChannel_closed scenario_final \<and>
   count_list scenario_sched Deliver = 1 \<and>
   (2::int) < 2 ^ 31 \<and> counters_in_range 2 scenario_final \<and>
   length scenario_sched \<le> 4 * nat 2 + 3 * length scenario_urls + 10 \<and>
   scenario_sched = take 25 scenario_sched @ Deliver # drop 26 scenario_sched \<and>
   count_list (take 25 scenario_sched) CloseResults = 1"
proof -
  have split: "scenario_sched = take 25 scenario_sched @ Deliver # drop 26 scenario_sched"
    by (simp add: scenario_sched_def)
  note c3 = collector_delivers_once [OF scenario_run]
  have closed: "count_list (take 25 scenario_sched) CloseResults = 1"
    using c3 split by blast
  have "run 2 scenario_urls scenario_sched = Some scenario_final \<and>
      mainG scenario_final = MGot scenario_results \<and>
      scenario_results = arrived (events 2 scenario_urls scenario_sched) \<and>
      resultChannel_closed scenario_final \<and> count_list scenario_sched Deliver = 1 \<and>
      (2::int) < 2 ^ 31 \<and> counters_in_range 2 scenario_final \<and>
      length scenario_sched \<le> 4 * nat 2 + 3 * length scenario_urls + 10"
    using c3 scenario_run by (simp add: scenario_final_def)
  then show ?thesis using split closed by blast
qed

text \<open>
  C4, as the code has it: \<^verbatim>\<open>main\<close> does not check \<^verbatim>\<open>numWorkers\<close>. With \<open>n \<le> 0\<close> the loop
  starts no worker, so no task is ever taken from the feeder and no result arrives. The
  program does not panic and its counters stay in their ranges. The counter of the
  \<^verbatim>\<open>WaitGroup\<close> stays zero, so the \<^verbatim>\<open>wg.Wait()\<close> of the coordinator returns as soon as the
  coordinator is started, and its \<^verbatim>\<open>close(resultChannel)\<close> follows. Some move is enabled
  until \<^verbatim>\<open>main\<close> has the slice, the run has at most \<open>3 M + 10\<close> moves, and the slice that
  \<^verbatim>\<open>main\<close> receives is empty.
\<close>

theorem no_worker_empty_collection:
  assumes n: "n \<le> 0" and run: "run n urls sched = Some s"
  shows "\<not> panicked s \<and> counters_in_range n s \<and> workers s = [] \<and>
         events n urls sched = [] \<and> collected s = [] \<and> wg s = 0 \<and>
         (coordinator s = KWait \<longrightarrow>
            step n urls WgWait s = Some (s\<lparr>coordinator := KClose\<rparr>)) \<and>
         (coordinator s = KClose \<longrightarrow>
            step n urls CloseResults s =
              Some (s\<lparr>coordinator := KDone, resultChannel_closed := True\<rparr>)) \<and>
         length sched \<le> 3 * length urls + 10 \<and>
         (stage (mainG s) \<noteq> 6 \<longrightarrow> step n urls (pick world s) s \<noteq> None) \<and>
         (\<forall>results. mainG s = MGot results \<longrightarrow> results = [])"
proof -
  have ctrl0: "ctrl_inv n initial" using pool_inv_initial [of n urls] by (simp add: pool_inv_def)
  have run': "run_from n urls initial sched = Some s" using run by (simp add: run_def)
  have ctrl: "ctrl_inv n s" using pool_inv_run [OF run] by (simp add: pool_inv_def)
  have 1: "\<not> panicked s" using ctrl by (rule ci_panic)
  have 2: "workers s = []" using ctrl n by (rule no_worker_spawned)
  have 3: "events n urls sched = []"
    using no_worker_run_from [OF ctrl0 n run'] by (simp add: events_def)
  have 4: "collected s = []"
    using arrived_run_from [OF ctrl0 run'] 3
    by (simp add: events_def collected_def initial_def)
  have 5: "length sched \<le> 3 * length urls + 10"
    using steps_left_run_from [OF run'] n by (simp add: steps_left_initial)
  have 6: "stage (mainG s) \<noteq> 6 \<longrightarrow> step n urls (pick world s) s \<noteq> None"
    using pick_enabled [OF ctrl] by blast
  have 7: "\<forall>results. mainG s = MGot results \<longrightarrow> results = []"
    using 4 by (auto simp: collected_def)
  have 8: "counters_in_range n s"
    using ctrl by (rule counters_in_range_inv) (use n in simp)
  have "stage (mainG s) \<noteq> 3"
    using ci_spawned [OF ctrl] n by (cases "mainG s") auto
  then have 9: "wg s = 0" using ci_wg [OF ctrl] 2 by (simp add: live_def)
  have 10: "coordinator s = KWait \<longrightarrow>
      step n urls WgWait s = Some (s\<lparr>coordinator := KClose\<rparr>)"
    using 1 9 by (simp add: step_def)
  have 11: "coordinator s = KClose \<longrightarrow>
      step n urls CloseResults s =
        Some (s\<lparr>coordinator := KDone, resultChannel_closed := True\<rparr>)"
    using 1 ci_result [OF ctrl] by (simp add: step_def)
  show ?thesis using 1 2 3 4 5 6 7 8 9 10 11 by blast
qed

theorem no_worker_empty_collection_witness:
  "(0::int) \<le> 0 \<and> run 0 [''A''] idle_sched = Some idle_final \<and>
   mainG idle_final = MGot [] \<and> \<not> panicked idle_final \<and> workers idle_final = [] \<and>
   wg idle_final = 0 \<and> counters_in_range 0 idle_final \<and>
   events 0 [''A''] idle_sched = [] \<and> length idle_sched \<le> 3 * length [''A''] + 10"
  using no_worker_empty_collection [of 0 "[''A'']" idle_sched idle_final] idle_run
  by (simp add: idle_final_def)

text \<open>
  With \<open>numWorkers = 0\<close> and one task the program runs to its end without a failure:
  \<^verbatim>\<open>main\<close> receives an empty slice while the task is still with the feeder.
\<close>

theorem no_worker_count_check_counterexample:
  "run 0 [''A'']
     [GoFeeder, GoCollector, LoopTest, GoCoordinator, WgWait, CloseResults, CollectorExit,
      Deliver] =
   Some \<lparr>mainG = MGot [], feeder = FSend [''A''], workers = [], collector = CDone,
         coordinator = KDone, wg = 0, urlChannel_closed = False,
         resultChannel_closed = True, panicked = False\<rparr>"
  by (simp add: eval_defs)

text \<open>
  C5: when a worker holds a task and the fetch fails, the call of \<^verbatim>\<open>scrapeURL\<close> is a
  move of the program that changes nothing but the program point of that worker, which
  now holds a result with the error in its \<^verbatim>\<open>Error\<close> field; the program does not panic
  and can move on. Whatever the fetch returns, the worker next publishes the result and
  is back at the head of its loop. A worker leaves its loop only there, and only when
  the task channel is closed: never because a task failed.
\<close>

theorem failed_fetch_is_recorded:
  assumes run: "run n urls sched = Some s"
    and i: "i < length (workers s)" and w: "workers s ! i = WWork url"
  shows "step n urls (Scrape i t0 (Inl err) t1) s =
           Some (s\<lparr>workers := (workers s)[i := WSend (scrapeURL url t0 (Inl err) t1)]\<rparr>) \<and>
         Error (scrapeURL url t0 (Inl err) t1) = Some err \<and>
         URL (scrapeURL url t0 (Inl err) t1) = url \<and>
         (\<forall>got. \<exists>s1.
            step n urls (Scrape i t0 got t1) s = Some s1 \<and> \<not> panicked s1 \<and>
            workers s1 ! i = WSend (scrapeURL url t0 got t1) \<and>
            step n urls (pick world s1) s1 \<noteq> None \<and>
            step n urls (Publish i) s1 =
              Some (s1\<lparr>collector := CRecv (gathered (collector s) @ [scrapeURL url t0 got t1]),
                       workers := (workers s1)[i := WRecv]\<rparr>)) \<and>
         (\<forall>a s' j. step n urls a s = Some s' \<longrightarrow> j < length (workers s) \<longrightarrow>
            \<not> leaving (workers s ! j) \<longrightarrow> leaving (workers s' ! j) \<longrightarrow>
            a = LoopExit j \<and> workers s ! j = WRecv \<and> urlChannel_closed s)"
proof -
  have ctrl: "ctrl_inv n s" using pool_inv_run [OF run] by (simp add: pool_inv_def)
  have np: "\<not> panicked s" using ctrl by (rule ci_panic)
  have scrape: "step n urls (Scrape i t0 got t1) s =
      Some (s\<lparr>workers := (workers s)[i := WSend (scrapeURL url t0 got t1)]\<rparr>)" for got
    using np i w by (simp add: step_def worker_at_def set_worker_def)
  have 1: "Error (scrapeURL url t0 (Inl err) t1) = Some err"
    by (simp add: scrapeURL_def)
  have 2: "URL (scrapeURL url t0 (Inl err) t1) = url" by (rule URL_scrapeURL)
  have 3: "\<exists>s1. step n urls (Scrape i t0 got t1) s = Some s1 \<and> \<not> panicked s1 \<and>
      workers s1 ! i = WSend (scrapeURL url t0 got t1) \<and>
      step n urls (pick world s1) s1 \<noteq> None \<and>
      step n urls (Publish i) s1 =
        Some (s1\<lparr>collector := CRecv (gathered (collector s) @ [scrapeURL url t0 got t1]),
                 workers := (workers s1)[i := WRecv]\<rparr>)" for got
  proof -
    define s1 where "s1 = s\<lparr>workers := (workers s)[i := WSend (scrapeURL url t0 got t1)]\<rparr>"
    have st: "step n urls (Scrape i t0 got t1) s = Some s1"
      unfolding s1_def by (rule scrape)
    have ctrl1: "ctrl_inv n s1" using ctrl st by (rule ctrl_inv_step)
    have np1: "\<not> panicked s1" using ctrl1 by (rule ci_panic)
    have i1: "i < length (workers s1)" and w1: "workers s1 ! i = WSend (scrapeURL url t0 got t1)"
      using i by (simp_all add: s1_def)
    have nd: "workers s1 ! i \<noteq> WDone" using w1 by simp
    note c = collector_receiving [OF ctrl1 i1 nd]
    have col: "collector s1 = CRecv (gathered (collector s))"
      using c(2) by (simp add: s1_def)
    have pub: "step n urls (Publish i) s1 =
        Some (s1\<lparr>collector := CRecv (gathered (collector s) @ [scrapeURL url t0 got t1]),
                 workers := (workers s1)[i := WRecv]\<rparr>)"
      using np1 i1 w1 c(1) col by (simp add: step_def worker_at_def set_worker_def)
    have "step n urls (pick world s1) s1 \<noteq> None"
      using ctrl1 c(3) by (rule pick_enabled)
    then show ?thesis using st np1 w1 pub by blast
  qed
  have 4: "\<forall>a s' j. step n urls a s = Some s' \<longrightarrow> j < length (workers s) \<longrightarrow>
      \<not> leaving (workers s ! j) \<longrightarrow> leaving (workers s' ! j) \<longrightarrow>
      a = LoopExit j \<and> workers s ! j = WRecv \<and> urlChannel_closed s"
    using leaving_step by blast
  show ?thesis using scrape [of "Inl err"] 1 2 3 4 by blast
qed

theorem failed_fetch_is_recorded_witness:
  "run 2 scenario_urls (take 10 scenario_sched) =
     Some \<lparr>mainG = MWait, feeder = FSend [''C''], workers = [WWork ''A'', WWork ''B''],
           collector = CRecv [], coordinator = KWait, wg = 2, urlChannel_closed = False,
           resultChannel_closed = False, panicked = False\<rparr> \<and>
   step 2 scenario_urls (Scrape 1 0 (Inl ''network unreachable'') 5000000)
     \<lparr>mainG = MWait, feeder = FSend [''C''], workers = [WWork ''A'', WWork ''B''],
      collector = CRecv [], coordinator = KWait, wg = 2, urlChannel_closed = False,
      resultChannel_closed = False, panicked = False\<rparr> =
     Some \<lparr>mainG = MWait, feeder = FSend [''C''],
           workers = [WWork ''A'', WSend (scenario_results ! 0)],
           collector = CRecv [], coordinator = KWait, wg = 2, urlChannel_closed = False,
           resultChannel_closed = False, panicked = False\<rparr> \<and>
   Error (scenario_results ! 0) = Some ''network unreachable''"
  using failed_fetch_is_recorded [OF scenario_prefix, of 1 "''B''" 0 "''network unreachable''" 5000000]
    scenario_prefix
  by (simp add: scenario_results_def scrapeURL_def time_Since_def maxDuration_def minDuration_def)

text \<open>
  C6: in every run with \<open>n \<ge> 1\<close>: if every fetch of the run succeeds, every collected
  result has a nil error; if every fetch fails, every collected result has a non-nil
  error; and what \<^verbatim>\<open>main\<close> receives are all \<open>M\<close> results. The run comes to its end whatever
  the network answers: for \<open>n\<close> below \<open>2\<^sup>3\<^sup>1\<close>, where the counters of the program stay in
  their ranges, the run has at most \<open>4 n + 3 M + 10\<close> moves and some move is enabled until
  \<^verbatim>\<open>main\<close> has the results (the next move asks the network only for answers of the given
  world, which may fail always).
\<close>

theorem all_succeed_or_all_fail:
  assumes n: "1 \<le> n" and run: "run n urls sched = Some s"
  shows "((\<forall>g \<in> set (fetches sched). \<exists>resp. g = Inr resp) \<longrightarrow>
            (\<forall>r \<in> set (collected s). Error r = None)) \<and>
         ((\<forall>g \<in> set (fetches sched). \<exists>err. g = Inl err) \<longrightarrow>
            (\<forall>r \<in> set (collected s). Error r \<noteq> None)) \<and>
         (n < 2 ^ 31 \<longrightarrow>
            counters_in_range n s \<and>
            length sched \<le> 4 * nat n + 3 * length urls + 10 \<and>
            (stage (mainG s) \<noteq> 6 \<longrightarrow> step n urls (pick world s) s \<noteq> None)) \<and>
         (\<forall>g \<in> set (fetches [pick world s]). \<exists>i url. g = fst (snd (world i url))) \<and>
         (\<forall>results. mainG s = MGot results \<longrightarrow>
            collected s = results \<and> length results = length urls)"
proof -
  have inv: "pool_inv n urls s" using run by (rule pool_inv_run)
  then have ctrl: "ctrl_inv n s" by (simp add: pool_inv_def)
  have ctrl0: "ctrl_inv n initial" using pool_inv_initial [of n urls] by (simp add: pool_inv_def)
  have run': "run_from n urls initial sched = Some s" using run by (simp add: run_def)
  have c0: "\<forall>r \<in> set (collected initial). P r"
    and w0: "\<forall>r. WSend r \<in> set (workers initial) \<longrightarrow> P r" for P
    by (simp_all add: collected_def initial_def)
  have 1: "\<forall>r \<in> set (collected s). Error r = None"
    if "\<forall>g \<in> set (fetches sched). \<exists>resp. g = Inr resp"
  proof -
    have "\<forall>g \<in> set (fetches sched). \<forall>url t0 t1. Error (scrapeURL url t0 g t1) = None"
      using that by (auto simp: scrapeURL_def)
    then show ?thesis
      using results_run_from [OF ctrl0 run', of "\<lambda>r. Error r = None"] c0 w0 by blast
  qed
  have 2: "\<forall>r \<in> set (collected s). Error r \<noteq> None"
    if "\<forall>g \<in> set (fetches sched). \<exists>err. g = Inl err"
  proof -
    have "\<forall>g \<in> set (fetches sched). \<forall>url t0 t1. Error (scrapeURL url t0 g t1) \<noteq> None"
      using that by (auto simp: scrapeURL_def)
    then show ?thesis
      using results_run_from [OF ctrl0 run', of "\<lambda>r. Error r \<noteq> None"] c0 w0 by blast
  qed
  have 3: "length sched \<le> 4 * nat n + 3 * length urls + 10"
    using steps_left_run_from [OF run'] by (simp add: steps_left_initial)
  have 4: "stage (mainG s) \<noteq> 6 \<longrightarrow> step n urls (pick world s) s \<noteq> None"
    using pick_enabled [OF ctrl] by blast
  have 5: "collected s = results \<and> length results = length urls"
    if m: "mainG s = MGot results" for results
  proof -
    have closed: "resultChannel_closed s" using ctrl m by (rule delivered_closed)
    have col: "collected s = results" using m by (simp add: collected_def)
    have "mset (map URL results) = mset urls"
      using closed_collected [OF inv closed n] col by simp
    then have "length results = length urls" by (metis length_map size_mset)
    then show ?thesis using col by simp
  qed
  have 6: "counters_in_range n s" if "n < 2 ^ 31"
    using ctrl that by (rule counters_in_range_inv)
  show ?thesis using 1 2 3 4 5 6 pick_fetches [of world s] by blast
qed

theorem all_succeed_or_all_fail_witness:
  "(1::int) \<le> 1 \<and> (1::int) < 2 ^ 31 \<and>
   run 1 [''A'', ''B''] (single_sched (Inr (Response 200 12))) =
     Some (single_final (Inr (Response 200 12))) \<and>
   fetches (single_sched (Inr (Response 200 12))) = [Inr (Response 200 12), Inr (Response 200 12)] \<and>
   Error (scrapeURL ''A'' 0 (Inr (Response 200 12)) 1000000) = None \<and>
   Error (scrapeURL ''B'' 1000000 (Inr (Response 200 12)) 3000000) = None \<and>
   run 1 [''A'', ''B''] (single_sched (Inl ''network unreachable'')) =
     Some (single_final (Inl ''network unreachable'')) \<and>
   fetches (single_sched (Inl ''network unreachable'')) =
     [Inl ''network unreachable'', Inl ''network unreachable''] \<and>
   Error (scrapeURL ''A'' 0 (Inl ''network unreachable'') 1000000) \<noteq> None \<and>
   Error (scrapeURL ''B'' 1000000 (Inl ''network unreachable'') 3000000) \<noteq> None \<and>
   length (single_sched (Inl ''network unreachable'')) \<le> 4 * nat 1 + 3 * length [''A'', ''B''] + 10"
proof -
  have f: "fetches (single_sched got) = [got, got]" for got
    by (simp add: single_sched_def)
  have ok: "\<forall>r \<in> set (collected (single_final (Inr (Response 200 12)))). Error r = None"
    using all_succeed_or_all_fail [OF _ single_run, of "Inr (Response 200 12)"] f by simp
  have bad: "\<forall>r \<in> set (collected (single_final (Inl ''network unreachable''))). Error r \<noteq> None"
    using all_succeed_or_all_fail [OF _ single_run, of "Inl ''network unreachable''"] f by simp
  have len: "length (single_sched (Inl ''network unreachable'')) \<le> 4 * nat 1 + 3 * length [''A'', ''B''] + 10"
    using all_succeed_or_all_fail [OF _ single_run, of "Inl ''network unreachable''"] by simp
  show ?thesis
    using ok bad len f single_run by (simp add: collected_def single_final_def)
qed

text \<open>
  C7: in every run the URLs that the feeder has handed out so far, in the order of the
  hand-offs, followed by those it still holds, are the slice \<^verbatim>\<open>urls\<close>; the task channel is
  closed only by the feeder, after the last URL; and the two moves of the feeder change
  nothing but the feeder's own program point, the program point of the receiving worker
  and the state of the task channel. The feeder does emit and close, and has no failure
  branch: for \<open>n\<close> below \<open>2\<^sup>3\<^sup>1\<close>, where the counters of the program stay in their ranges,
  the program never panics, the hand-off of the next URL is enabled whenever a worker
  waits for a task, the close is enabled as soon as the last URL is sent, the run has at
  most \<open>4 n + 3 M + 10\<close> moves and some move is enabled until \<^verbatim>\<open>main\<close> has the results.
  With \<open>n \<ge> 1\<close>, when \<^verbatim>\<open>main\<close> has the results the whole slice has been handed out and the
  task channel is closed.
\<close>

theorem feeder_emits_in_order:
  assumes run: "run n urls sched = Some s"
  shows "emitted (events n urls sched) @ pending urls (feeder s) = urls \<and>
         (urlChannel_closed s \<longleftrightarrow> feeder s = FDone) \<and>
         (urlChannel_closed s \<longrightarrow> emitted (events n urls sched) = urls) \<and>
         (\<forall>i s'. step n urls (Handoff i) s = Some s' \<longrightarrow>
            (\<exists>url rest. feeder s = FSend (url # rest) \<and>
               s' = s\<lparr>feeder := FSend rest, workers := (workers s)[i := WWork url]\<rparr>)) \<and>
         (\<forall>s'. step n urls CloseURLs s = Some s' \<longrightarrow>
            feeder s = FSend [] \<and> s' = s\<lparr>feeder := FDone, urlChannel_closed := True\<rparr>) \<and>
         (n < 2 ^ 31 \<longrightarrow>
            counters_in_range n s \<and> \<not> panicked s \<and>
            (\<forall>i url rest. feeder s = FSend (url # rest) \<longrightarrow> worker_at s i = Some WRecv \<longrightarrow>
               step n urls (Handoff i) s =
                 Some (s\<lparr>feeder := FSend rest, workers := (workers s)[i := WWork url]\<rparr>)) \<and>
            (feeder s = FSend [] \<longrightarrow>
               step n urls CloseURLs s = Some (s\<lparr>feeder := FDone, urlChannel_closed := True\<rparr>)) \<and>
            length sched \<le> 4 * nat n + 3 * length urls + 10 \<and>
            (stage (mainG s) \<noteq> 6 \<longrightarrow> step n urls (pick world s) s \<noteq> None)) \<and>
         (1 \<le> n \<longrightarrow> stage (mainG s) = 6 \<longrightarrow>
            urlChannel_closed s \<and> emitted (events n urls sched) = urls)"
proof -
  have ctrl0: "ctrl_inv n initial" using pool_inv_initial [of n urls] by (simp add: pool_inv_def)
  have run': "run_from n urls initial sched = Some s" using run by (simp add: run_def)
  have ctrl: "ctrl_inv n s" using pool_inv_run [OF run] by (simp add: pool_inv_def)
  have np: "\<not> panicked s" using ctrl by (rule ci_panic)
  have url: "urlChannel_closed s \<longleftrightarrow> feeder s = FDone" using ctrl by (rule ci_url)
  have 1: "emitted (events n urls sched) @ pending urls (feeder s) = urls"
    using emitted_run_from [OF ctrl0 run'] by (simp add: events_def initial_def)
  have 2: "urlChannel_closed s \<longrightarrow> emitted (events n urls sched) = urls"
    using 1 url by auto
  have 3: "\<exists>url rest. feeder s = FSend (url # rest) \<and>
      s' = s\<lparr>feeder := FSend rest, workers := (workers s)[i := WWork url]\<rparr>"
    if "step n urls (Handoff i) s = Some s'" for i s'
    using that url by (cases rule: step_cases) simp_all
  have 4: "feeder s = FSend [] \<and> s' = s\<lparr>feeder := FDone, urlChannel_closed := True\<rparr>"
    if "step n urls CloseURLs s = Some s'" for s'
    using that url by (cases rule: step_cases) simp_all
  have 5: "step n urls (Handoff i) s =
      Some (s\<lparr>feeder := FSend rest, workers := (workers s)[i := WWork url]\<rparr>)"
    if "feeder s = FSend (url # rest)" and "worker_at s i = Some WRecv" for i url rest
    using that np url by (simp add: step_def set_worker_def)
  have 6: "feeder s = FSend [] \<longrightarrow>
      step n urls CloseURLs s = Some (s\<lparr>feeder := FDone, urlChannel_closed := True\<rparr>)"
    using np url by (simp add: step_def)
  have 7: "length sched \<le> 4 * nat n + 3 * length urls + 10"
    using steps_left_run_from [OF run'] by (simp add: steps_left_initial)
  have 8: "stage (mainG s) \<noteq> 6 \<longrightarrow> step n urls (pick world s) s \<noteq> None"
    using pick_enabled [OF ctrl] by blast
  have 9: "counters_in_range n s" if "n < 2 ^ 31"
    using ctrl that by (rule counters_in_range_inv)
  have 10: "urlChannel_closed s \<and> emitted (events n urls sched) = urls"
    if n: "1 \<le> n" and m: "stage (mainG s) = 6"
  proof -
    obtain results where "mainG s = MGot results"
      using m by (cases "mainG s") simp_all
    then have "resultChannel_closed s" using ctrl by (simp add: delivered_closed)
    then have "urlChannel_closed s" using closed_feeder_done [OF ctrl _ n] url by simp
    then show ?thesis using 2 by simp
  qed
  show ?thesis using 1 2 3 4 5 6 7 8 9 10 np url by blast
qed

theorem feeder_emits_in_order_witness:
  "(2::int) < 2 ^ 31 \<and> (1::int) \<le> 2 \<and>
   run 2 scenario_urls (take 8 scenario_sched) =
     Some \<lparr>mainG = MWait, feeder = FSend [''A'', ''B'', ''C''], workers = [WRecv, WRecv],
           collector = CRecv [], coordinator = KWait, wg = 2, urlChannel_closed = False,
           resultChannel_closed = False, panicked = False\<rparr> \<and>
   step 2 scenario_urls (Handoff 0)
     \<lparr>mainG = MWait, feeder = FSend [''A'', ''B'', ''C''], workers = [WRecv, WRecv],
      collector = CRecv [], coordinator = KWait, wg = 2, urlChannel_closed = False,
      resultChannel_closed = False, panicked = False\<rparr> =
     Some \<lparr>mainG = MWait, feeder = FSend [''B'', ''C''], workers = [WWork ''A'', WRecv],
           collector = CRecv [], coordinator = KWait, wg = 2, urlChannel_closed = False,
           resultChannel_closed = False, panicked = False\<rparr> \<and>
   run 2 scenario_urls scenario_sched = Some scenario_final \<and>
   stage (mainG scenario_final) = 6 \<and>
   urlChannel_closed scenario_final \<and> feeder scenario_final = FDone \<and>
   emitted (events 2 scenario_urls scenario_sched) = scenario_urls \<and>
   \<not> panicked scenario_final \<and> counters_in_range 2 scenario_final \<and>
   length scenario_sched \<le> 4 * nat 2 + 3 * length scenario_urls + 10"
proof -
  have "step 2 scenario_urls (Handoff 0)
      \<lparr>mainG = MWait, feeder = FSend [''A'', ''B'', ''C''], workers = [WRecv, WRecv],
       collector = CRecv [], coordinator = KWait, wg = 2, urlChannel_closed = False,
       resultChannel_closed = False, panicked = False\<rparr> =
      Some \<lparr>mainG = MWait, feeder = FSend [''B'', ''C''], workers = [WWork ''A'', WRecv],
            collector = CRecv [], coordinator = KWait, wg = 2, urlChannel_closed = False,
            resultChannel_closed = False, panicked = False\<rparr>"
    using feeder_emits_in_order [OF scenario_started]
    by (simp add: worker_at_def)
  moreover have "stage (mainG scenario_final) = 6 \<and>
      urlChannel_closed scenario_final \<and> feeder scenario_final = FDone \<and>
      emitted (events 2 scenario_urls scenario_sched) = scenario_urls \<and>
      \<not> panicked scenario_final \<and> counters_in_range 2 scenario_final \<and>
      length scenario_sched \<le> 4 * nat 2 + 3 * length scenario_urls + 10"
    using feeder_emits_in_order [OF scenario_run] by (simp add: scenario_final_def)
  ultimately show ?thesis using scenario_started scenario_run by simp
qed

text \<open>
  C8: in every run, the tasks that a worker has taken are, in the same order, the tasks
  of the results it has published, followed by the task it holds at the moment. With
  one worker every task goes to that worker, the results collected so far, the task in
  the worker's hands and the tasks not yet sent are the slice \<^verbatim>\<open>urls\<close> in its order, and the
  results that \<^verbatim>\<open>main\<close> receives are in the order of submission.
\<close>

theorem worker_keeps_task_order:
  assumes run: "run n urls sched = Some s"
  shows "(\<forall>i. tasks_to i (events n urls sched) =
            map URL (results_by i (events n urls sched)) @ held_at s i) \<and>
         (n = 1 \<longrightarrow>
            tasks_to 0 (events n urls sched) = emitted (events n urls sched) \<and>
            results_by 0 (events n urls sched) = arrived (events n urls sched) \<and>
            map URL (collected s) @ held_at s 0 @ pending urls (feeder s) = urls \<and>
            (\<forall>results. mainG s = MGot results \<longrightarrow> map URL results = urls))"
proof -
  have ctrl0: "ctrl_inv n initial" using pool_inv_initial [of n urls] by (simp add: pool_inv_def)
  have run': "run_from n urls initial sched = Some s" using run by (simp add: run_def)
  have inv: "pool_inv n urls s" using run by (rule pool_inv_run)
  then have ctrl: "ctrl_inv n s" and cons: "cons_inv urls s" by (simp_all add: pool_inv_def)
  have 1: "tasks_to i (events n urls sched) =
      map URL (results_by i (events n urls sched)) @ held_at s i" for i
    using order_run_from [OF run', of i]
    by (simp add: events_def held_at_def worker_at_def initial_def)
  have 2: "tasks_to 0 (events n urls sched) = emitted (events n urls sched) \<and>
      results_by 0 (events n urls sched) = arrived (events n urls sched) \<and>
      map URL (collected s) @ held_at s 0 @ pending urls (feeder s) = urls \<and>
      (\<forall>results. mainG s = MGot results \<longrightarrow> map URL results = urls)"
    if n: "n = 1"
  proof -
    have ids: "\<forall>ev \<in> set (events n urls sched). worker_of ev = 0"
      using ids_run_from [OF ctrl0 run'] n by (simp add: events_def)
    then have a: "tasks_to 0 (events n urls sched) = emitted (events n urls sched)"
      by (rule tasks_to_only)
    have b: "results_by 0 (events n urls sched) = arrived (events n urls sched)"
      using ids by (rule results_by_only)
    have "int (length (workers s)) \<le> max n 0" using ctrl by (rule spawned_le)
    then have l: "length (workers s) \<le> 1" using n by simp
    then have "map URL (collected s) @ concat (map held (workers s)) @
        pending urls (feeder s) = urls"
      using cons unfolding cons_inv_def by blast
    then have c: "map URL (collected s) @ held_at s 0 @ pending urls (feeder s) = urls"
      using held_single [OF l] by simp
    have d: "map URL results = urls" if m: "mainG s = MGot results" for results
    proof -
      have closed: "resultChannel_closed s" using ctrl m by (rule delivered_closed)
      have "concat (map held (workers s)) = []"
        using closed_all_done(1) [OF ctrl closed] by (rule held_all_done)
      then have "held_at s 0 = []" using held_single [OF l] by simp
      moreover have "pending urls (feeder s) = []"
        using closed_feeder_done [OF ctrl closed] n by simp
      moreover have "collected s = results" using m by (simp add: collected_def)
      ultimately show ?thesis using c by simp
    qed
    show ?thesis using a b c d by blast
  qed
  show ?thesis using 1 2 by blast
qed

theorem worker_keeps_task_order_witness:
  "run 1 [''A'', ''B''] (single_sched (Inr (Response 200 12))) =
     Some (single_final (Inr (Response 200 12))) \<and>
   mainG (single_final (Inr (Response 200 12))) =
     MGot [scrapeURL ''A'' 0 (Inr (Response 200 12)) 1000000,
           scrapeURL ''B'' 1000000 (Inr (Response 200 12)) 3000000] \<and>
   map URL [scrapeURL ''A'' 0 (Inr (Response 200 12)) 1000000,
            scrapeURL ''B'' 1000000 (Inr (Response 200 12)) 3000000] = [''A'', ''B''] \<and>
   tasks_to 0 (events 1 [''A'', ''B''] (single_sched (Inr (Response 200 12)))) =
     map URL (results_by 0 (events 1 [''A'', ''B''] (single_sched (Inr (Response 200 12))))) @ []"
proof -
  note c8 = worker_keeps_task_order [OF single_run, of "Inr (Response 200 12)"]
  have m: "mainG (single_final (Inr (Response 200 12))) =
      MGot [scrapeURL ''A'' 0 (Inr (Response 200 12)) 1000000,
            scrapeURL ''B'' 1000000 (Inr (Response 200 12)) 3000000]"
    by (simp add: single_final_def)
  have h: "held_at (single_final (Inr (Response 200 12))) 0 = []"
    by (simp add: single_final_def held_at_def worker_at_def)
  have "map URL [scrapeURL ''A'' 0 (Inr (Response 200 12)) 1000000,
      scrapeURL ''B'' 1000000 (Inr (Response 200 12)) 3000000] = [''A'', ''B'']"
    using c8 m by blast
  moreover have "tasks_to 0 (events 1 [''A'', ''B''] (single_sched (Inr (Response 200 12)))) =
      map URL (results_by 0 (events 1 [''A'', ''B''] (single_sched (Inr (Response 200 12))))) @ []"
    using c8 h by metis
  ultimately show ?thesis using single_run m by blast
qed

end
